theory Spec2Isabelle
  imports Main
begin

section \<open>Data model (src/types.ts)\<close>

text \<open>
  The enums of \<^verbatim>\<open>types.ts\<close> are datatypes and its interfaces are records.
  A JavaScript \<^verbatim>\<open>number\<close> that holds minutes, a duration or a priority is an
  \<open>int\<close>: the form and the engine only produce integers far below \<open>2^53\<close>, where
  double arithmetic is exact. The optional \<^verbatim>\<open>deadline\<close> of a task is never read
  by the engine and is left out. The field \<^verbatim>\<open>id\<close> of a task is \<open>task_id\<close> and
  \<^verbatim>\<open>type\<close> is \<open>task_type\<close>; the fields \<^verbatim>\<open>id\<close>, \<^verbatim>\<open>priority\<close> and
  \<^verbatim>\<open>status\<close> of a block carry the prefix \<open>block_\<close>.
\<close>

datatype TaskType = ANCHOR | FLOATING | INTERRUPT

datatype TaskStatus = PENDING | SCHEDULED | COMPLETED | ROLLOVER

record UserSettings =
  workStart :: string
  workEnd :: string
  bufferMinutes :: int

record Task =
  task_id :: string
  title :: string
  task_type :: TaskType
  priority :: int
  durationMinutes :: int
  isSplittable :: bool
  status :: TaskStatus
  fixedStartTime :: "string option"

text \<open>
  The three shapes of a block identifier in \<^verbatim>\<open>scheduler.ts\<close>:
  \<^verbatim>\<open>block-<id>\<close> for a fixed task, \<^verbatim>\<open>block-<id>-<random>\<close> for a task placed whole
  (the five random characters are not modelled) and \<^verbatim>\<open>block-<id>-partA\<close> for the
  first part of a split.
\<close>

datatype BlockId = FixedBlock string | PlacedBlock string | PartABlock string

record ScheduleBlock =
  block_id :: BlockId
  taskId :: string
  taskTitle :: string
  taskType :: TaskType
  startTime :: int
  endTime :: int
  isLocked :: bool
  block_priority :: int
  block_status :: TaskStatus

section \<open>Time codec\<close>

subsection \<open>JavaScript numbers and \<^verbatim>\<open>Number(string)\<close>\<close>

text \<open>
  A number of the codec is an integer or \<^verbatim>\<open>NaN\<close>. \<open>Number_js\<close> is ECMAScript's
  StringToNumber where this model can follow it, and \<open>None\<close> elsewhere: \<open>None\<close> says
  nothing about the value the source computes. The model follows strings of ASCII
  characters only (ECMAScript also trims white space beyond ASCII, such as U+00A0). On
  those, white space is trimmed, the empty string is \<open>0\<close>, a string that is no numeric
  literal is \<^verbatim>\<open>NaN\<close>, and an optionally signed run of decimal digits is its value
  when a double holds it exactly (up to \<open>2^53\<close>). The remaining numeric literals (a
  fraction, an exponent, a radix prefix, \<^verbatim>\<open>Infinity\<close>) denote numbers the model
  does not represent.
\<close>

datatype jsnum = Num int | NaN

definition is_ascii :: "string \<Rightarrow> bool" where
  "is_ascii s = list_all (\<lambda>c. of_char c < (128::nat)) s"

definition is_exact :: "int \<Rightarrow> bool" where
  "is_exact n = (- 9007199254740992 \<le> n \<and> n \<le> 9007199254740992)"

text \<open>The white space of StringToNumber within ASCII: TAB, LF, VT, FF, CR and the space.\<close>

definition is_ws :: "char \<Rightarrow> bool" where
  "is_ws c = (c \<in> set [CHR 0x09, CHR 0x0A, CHR 0x0B, CHR 0x0C, CHR 0x0D, CHR 0x20])"

definition trim :: "string \<Rightarrow> string" where
  "trim s = rev (dropWhile is_ws (rev (dropWhile is_ws s)))"

definition digit_chars :: string where
  "digit_chars = ''0123456789''"

definition is_digit :: "char \<Rightarrow> bool" where
  "is_digit c = (c \<in> set digit_chars)"

fun index_of :: "'a \<Rightarrow> 'a list \<Rightarrow> nat" where
  "index_of c [] = 0"
| "index_of c (d # ds) = (if c = d then 0 else Suc (index_of c ds))"

definition digit_val :: "char \<Rightarrow> int" where
  "digit_val c = int (index_of c digit_chars)"

definition dec_val :: "string \<Rightarrow> int" where
  "dec_val ds = foldl (\<lambda>n c. 10 * n + digit_val c) 0 ds"

definition all_digits :: "string \<Rightarrow> bool" where
  "all_digits ds = (ds \<noteq> [] \<and> list_all is_digit ds)"

definition strip_sign :: "string \<Rightarrow> string" where
  "strip_sign s = (case s of [] \<Rightarrow> []
     | c # cs \<Rightarrow> if c = CHR ''+'' \<or> c = CHR ''-'' then cs else s)"

definition is_exponent_opt :: "string \<Rightarrow> bool" where
  "is_exponent_opt r = (case r of [] \<Rightarrow> True
     | c # cs \<Rightarrow> (c = CHR ''e'' \<or> c = CHR ''E'') \<and> all_digits (strip_sign cs))"

definition is_unsigned_decimal :: "string \<Rightarrow> bool" where
  "is_unsigned_decimal u =
     (u = ''Infinity'' \<or>
      (let ip = takeWhile is_digit u; r = dropWhile is_digit u in
       case r of
         [] \<Rightarrow> ip \<noteq> []
       | c # cs \<Rightarrow>
           if c = CHR ''.''
           then (ip \<noteq> [] \<or> takeWhile is_digit cs \<noteq> []) \<and> is_exponent_opt (dropWhile is_digit cs)
           else ip \<noteq> [] \<and> is_exponent_opt r))"

definition is_radix_literal :: "string \<Rightarrow> bool" where
  "is_radix_literal t = (case t of
       z # p # ds \<Rightarrow> z = CHR ''0'' \<and> ds \<noteq> [] \<and>
         ((p \<in> set ''bB'' \<and> list_all (\<lambda>c. c \<in> set ''01'') ds) \<or>
          (p \<in> set ''oO'' \<and> list_all (\<lambda>c. c \<in> set ''01234567'') ds) \<or>
          (p \<in> set ''xX'' \<and> list_all (\<lambda>c. c \<in> set ''0123456789abcdefABCDEF'') ds))
     | _ \<Rightarrow> False)"

definition is_numeric_literal :: "string \<Rightarrow> bool" where
  "is_numeric_literal t = (is_unsigned_decimal (strip_sign t) \<or> is_radix_literal t)"

definition Number_js :: "string \<Rightarrow> jsnum option" where
  "Number_js s =
     (if \<not> is_ascii s then None
      else let t = trim s in
        if t = [] then Some (Num 0)
        else if \<not> is_numeric_literal t then Some NaN
        else if all_digits (strip_sign t) then
          (let v = (if hd t = CHR ''-'' then - dec_val (strip_sign t) else dec_val (strip_sign t))
           in if is_exact v then Some (Num v) else None)
        else None)"

text \<open>
  A field that \<^verbatim>\<open>Number\<close> turns into \<^verbatim>\<open>NaN\<close>: ASCII, not blank, and no numeric
  literal.
\<close>

definition not_numeric :: "string \<Rightarrow> bool" where
  "not_numeric f = (is_ascii f \<and> trim f \<noteq> [] \<and> \<not> is_numeric_literal (trim f))"

text \<open>
  A field that \<^verbatim>\<open>Number\<close> turns into an integer written in decimal: ASCII, and blank
  (the value is \<open>0\<close>) or a run of digits.
\<close>

definition plain_field :: "string \<Rightarrow> bool" where
  "plain_field f = (is_ascii f \<and> (trim f = [] \<or> all_digits (trim f)))"

definition field_val :: "string \<Rightarrow> int" where
  "field_val f = (if trim f = [] then 0 else dec_val (trim f))"

text \<open>
  Multiplication and addition of two numbers. \<^verbatim>\<open>NaN\<close> absorbs every operand, also
  one the model does not represent; otherwise an operand outside the model, or a
  result that a double does not hold exactly, gives a result outside the model.
\<close>

definition js_mul :: "jsnum option \<Rightarrow> jsnum option \<Rightarrow> jsnum option" where
  "js_mul a b = (case (a, b) of
       (Some NaN, _) \<Rightarrow> Some NaN
     | (_, Some NaN) \<Rightarrow> Some NaN
     | (Some (Num x), Some (Num y)) \<Rightarrow> if is_exact (x * y) then Some (Num (x * y)) else None
     | _ \<Rightarrow> None)"

definition js_add :: "jsnum option \<Rightarrow> jsnum option \<Rightarrow> jsnum option" where
  "js_add a b = (case (a, b) of
       (Some NaN, _) \<Rightarrow> Some NaN
     | (_, Some NaN) \<Rightarrow> Some NaN
     | (Some (Num x), Some (Num y)) \<Rightarrow> if is_exact (x + y) then Some (Num (x + y)) else None
     | _ \<Rightarrow> None)"

subsection \<open>\<^verbatim>\<open>timeToMinutes\<close> and \<^verbatim>\<open>minutesToTime\<close>\<close>

text \<open>\<^verbatim>\<open>String.prototype.split\<close> with a one-character separator: never an empty array.\<close>

fun split_on :: "char \<Rightarrow> string \<Rightarrow> string list" where
  "split_on sep [] = [[]]"
| "split_on sep (c # cs) =
     (if c = sep then [] # split_on sep cs
      else (case split_on sep cs of [] \<Rightarrow> [[c]] | p # ps \<Rightarrow> (c # p) # ps))"

text \<open>
  The array destructuring \<^verbatim>\<open>const [hours, minutes] = ...\<close>: a missing element is
  \<^verbatim>\<open>undefined\<close>, which arithmetic converts to \<^verbatim>\<open>NaN\<close>.
\<close>

definition element :: "jsnum option list \<Rightarrow> nat \<Rightarrow> jsnum option" where
  "element xs i = (if i < length xs then xs ! i else Some NaN)"

definition timeToMinutes :: "string \<Rightarrow> jsnum option" where
  "timeToMinutes time =
     (let parts = map Number_js (split_on CHR '':'' time);
          hours = element parts 0;
          minutes = element parts 1
      in js_add (js_mul hours (Some (Num 60))) minutes)"

text \<open>\<^verbatim>\<open>Number.prototype.toString\<close> on an integer, and \<^verbatim>\<open>padStart(2, '0')\<close>.\<close>

fun nat_digits :: "nat \<Rightarrow> string" where
  "nat_digits n =
     (if n < 10 then [digit_chars ! n] else nat_digits (n div 10) @ [digit_chars ! (n mod 10)])"

definition int_toString :: "int \<Rightarrow> string" where
  "int_toString n = (if n < 0 then CHR ''-'' # nat_digits (nat (- n)) else nat_digits (nat n))"

definition padStart2 :: "string \<Rightarrow> string" where
  "padStart2 s = replicate (2 - length s) CHR ''0'' @ s"

text \<open>The remainder operator \<^verbatim>\<open>%\<close> on integers: the result has the sign of the dividend.\<close>

definition js_rem :: "int \<Rightarrow> int \<Rightarrow> int" where
  "js_rem a b = (if a < 0 then - ((- a) mod \<bar>b\<bar>) else a mod \<bar>b\<bar>)"

fun minutesToTime :: "jsnum \<Rightarrow> string" where
  "minutesToTime NaN = ''NaN:NaN''"
| "minutesToTime (Num minutes) =
     (let h = minutes div 60; m = js_rem minutes 60
      in padStart2 (int_toString h) @ '':'' @ padStart2 (int_toString m))"

declare nat_digits.simps [simp del]

section \<open>The engine: \<^verbatim>\<open>rescheduleDay\<close>\<close>

subsection \<open>\<^verbatim>\<open>Array.prototype.sort\<close> with a comparator\<close>

text \<open>
  The sort is stable, and for a comparator that is a consistent ordering every
  conforming engine returns the same array: the one insertion from the right builds.
\<close>

fun insert_by :: "('a \<Rightarrow> 'a \<Rightarrow> int) \<Rightarrow> 'a \<Rightarrow> 'a list \<Rightarrow> 'a list" where
  "insert_by cmp x [] = [x]"
| "insert_by cmp x (y # ys) = (if cmp x y \<le> 0 then x # y # ys else y # insert_by cmp x ys)"

definition js_sort :: "('a \<Rightarrow> 'a \<Rightarrow> int) \<Rightarrow> 'a list \<Rightarrow> 'a list" where
  "js_sort cmp xs = foldr (insert_by cmp) xs []"

subsection \<open>Hard constraints: blocks and occupied ranges of the fixed tasks\<close>

record Interval =
  occ_start :: int
  occ_end :: int

definition fixedTasks :: "Task list \<Rightarrow> Task list" where
  "fixedTasks tasks = filter (\<lambda>t. task_type t = ANCHOR \<or> task_type t = INTERRUPT) tasks"

definition lockedBlock :: "Task \<Rightarrow> int \<Rightarrow> ScheduleBlock" where
  "lockedBlock task start =
     \<lparr>block_id = FixedBlock (task_id task), taskId = task_id task, taskTitle = title task,
      taskType = task_type task, startTime = start, endTime = start + durationMinutes task,
      isLocked = True, block_priority = priority task, block_status = SCHEDULED\<rparr>"

definition occupiedRange :: "UserSettings \<Rightarrow> Task \<Rightarrow> int \<Rightarrow> Interval" where
  "occupiedRange settings task start =
     \<lparr>occ_start = max 0 (start - bufferMinutes settings),
      occ_end = min 1440 (start + durationMinutes task + bufferMinutes settings)\<rparr>"

text \<open>
  The \<^verbatim>\<open>forEach\<close> over the fixed tasks. A task whose \<^verbatim>\<open>fixedStartTime\<close> is
  falsy (absent or the empty string) is skipped. The pass gives \<open>None\<close> when a start
  time is not an integer: the source then computes with \<^verbatim>\<open>NaN\<close> and sorts with a
  comparator that is no ordering, whose result is implementation-defined.
\<close>

fun fixedPass :: "UserSettings \<Rightarrow> Task list \<Rightarrow> (ScheduleBlock list \<times> Interval list) option" where
  "fixedPass settings [] = Some ([], [])"
| "fixedPass settings (task # rest) =
     (case fixedStartTime task of
        None \<Rightarrow> fixedPass settings rest
      | Some time \<Rightarrow>
          if time = [] then fixedPass settings rest
          else (case timeToMinutes time of
              Some (Num start) \<Rightarrow>
                (case fixedPass settings rest of
                   None \<Rightarrow> None
                 | Some (blocks, occupied) \<Rightarrow>
                     Some (lockedBlock task start # blocks,
                           occupiedRange settings task start # occupied))
            | _ \<Rightarrow> None))"

subsection \<open>Merging the occupied ranges and finding the gaps\<close>

fun mergeLoop :: "Interval \<Rightarrow> Interval list \<Rightarrow> Interval list" where
  "mergeLoop current [] = [current]"
| "mergeLoop current (x # xs) =
     (if occ_start x < occ_end current
      then mergeLoop (current\<lparr>occ_end := max (occ_end current) (occ_end x)\<rparr>) xs
      else current # mergeLoop x xs)"

definition mergeOccupied :: "Interval list \<Rightarrow> Interval list" where
  "mergeOccupied occupied = (case occupied of [] \<Rightarrow> [] | first # rest \<Rightarrow> mergeLoop first rest)"

record Gap =
  gap_start :: int
  gap_end :: int
  duration :: int

fun findGaps :: "int \<Rightarrow> int \<Rightarrow> Interval list \<Rightarrow> Gap list" where
  "findGaps cursor dayEnd [] =
     (if cursor < dayEnd
      then [\<lparr>gap_start = cursor, gap_end = dayEnd, duration = dayEnd - cursor\<rparr>] else [])"
| "findGaps cursor dayEnd (occ # rest) =
     (if occ_end occ \<le> cursor then findGaps cursor dayEnd rest
      else (if occ_start occ > cursor
            then [\<lparr>gap_start = cursor, gap_end = occ_start occ, duration = occ_start occ - cursor\<rparr>]
            else [])
           @ findGaps (max cursor (occ_end occ)) dayEnd rest)"

subsection \<open>Selecting and ordering the floating tasks\<close>

definition taskOrder :: "Task \<Rightarrow> Task \<Rightarrow> int" where
  "taskOrder a b =
     (if priority a \<noteq> priority b then priority a - priority b
      else durationMinutes b - durationMinutes a)"

definition floatingTasks :: "Task list \<Rightarrow> Task list" where
  "floatingTasks tasks =
     js_sort taskOrder (filter (\<lambda>t. task_type t = FLOATING \<and> status t \<noteq> COMPLETED) tasks)"

subsection \<open>The fitting loop\<close>

text \<open>
  The state of the \<^verbatim>\<open>while\<close> loop: the queue, the gaps (mutated in place in the
  source, so a gap is named by its index), and the two output arrays.
\<close>

record LoopState =
  queue :: "Task list"
  gaps :: "Gap list"
  st_blocks :: "ScheduleBlock list"
  rollover :: "Task list"

text \<open>The index of the first gap that holds \<open>d\<close> minutes: the \<^verbatim>\<open>for\<close> loop with its \<^verbatim>\<open>break\<close>.\<close>

fun firstFit :: "Gap list \<Rightarrow> int \<Rightarrow> nat option" where
  "firstFit [] d = None"
| "firstFit (g # gs) d = (if duration g \<ge> d then Some 0 else map_option Suc (firstFit gs d))"

text \<open>\<^verbatim>\<open>gap.start += consumed; gap.duration -= consumed\<close>\<close>

definition consume :: "int \<Rightarrow> Gap \<Rightarrow> Gap" where
  "consume consumed gap =
     gap\<lparr>gap_start := gap_start gap + consumed, duration := duration gap - consumed\<rparr>"

text \<open>
  \<^verbatim>\<open>[...gaps].sort((a, b) => b.duration - a.duration)[0]\<close>: the copy is shallow, so
  the largest gap is an element of \<open>gaps\<close> itself; the sort runs on the indices.
\<close>

definition largestGap :: "Gap list \<Rightarrow> nat option" where
  "largestGap gs =
     (case js_sort (\<lambda>a b. duration (gs ! b) - duration (gs ! a)) [0..<length gs] of
        [] \<Rightarrow> None
      | i # _ \<Rightarrow> Some i)"

definition placedBlock :: "Task \<Rightarrow> int \<Rightarrow> ScheduleBlock" where
  "placedBlock task start =
     \<lparr>block_id = PlacedBlock (task_id task), taskId = task_id task, taskTitle = title task,
      taskType = task_type task, startTime = start, endTime = start + durationMinutes task,
      isLocked = False, block_priority = priority task, block_status = SCHEDULED\<rparr>"

definition partABlock :: "Task \<Rightarrow> int \<Rightarrow> int \<Rightarrow> ScheduleBlock" where
  "partABlock task start partADuration =
     \<lparr>block_id = PartABlock (task_id task), taskId = task_id task,
      taskTitle = title task @ '' (Part 1)'',
      taskType = task_type task, startTime = start, endTime = start + partADuration,
      isLocked = False, block_priority = priority task, block_status = SCHEDULED\<rparr>"

definition partB :: "Task \<Rightarrow> int \<Rightarrow> Task" where
  "partB task partBDuration =
     task\<lparr>title := title task @ '' (Part 2)'', durationMinutes := partBDuration\<rparr>"

text \<open>One iteration of the \<^verbatim>\<open>while\<close> loop on a state whose queue is \<open>task # rest\<close>.\<close>

definition iteration :: "UserSettings \<Rightarrow> Task \<Rightarrow> Task list \<Rightarrow> LoopState \<Rightarrow> LoopState" where
  "iteration settings task rest st =
     (case firstFit (gaps st) (durationMinutes task) of
        Some i \<Rightarrow>
          st\<lparr>queue := rest,
             gaps := (gaps st)[i := consume (durationMinutes task + bufferMinutes settings) (gaps st ! i)],
             st_blocks := st_blocks st @ [placedBlock task (gap_start (gaps st ! i))]\<rparr>
      | None \<Rightarrow>
          if isSplittable task \<and> durationMinutes task > 30 then
            (case largestGap (gaps st) of
               None \<Rightarrow> st\<lparr>queue := rest, rollover := rollover st @ [task]\<rparr>
             | Some j \<Rightarrow>
                 if duration (gaps st ! j) \<ge> 15 then
                   (let fitDuration = duration (gaps st ! j);
                        actualFit = max 15 (fitDuration - bufferMinutes settings)
                    in if actualFit < 15
                       then st\<lparr>queue := rest, rollover := rollover st @ [task]\<rparr>
                       else st\<lparr>queue := partB task (durationMinutes task - actualFit) # rest,
                               gaps := (gaps st)[j := consume (actualFit + bufferMinutes settings) (gaps st ! j)],
                               st_blocks := st_blocks st @ [partABlock task (gap_start (gaps st ! j)) actualFit]\<rparr>)
                 else st\<lparr>queue := rest, rollover := rollover st @ [task]\<rparr>)
          else st\<lparr>queue := rest, rollover := rollover st @ [task]\<rparr>)"

definition loopStep :: "UserSettings \<Rightarrow> LoopState \<Rightarrow> LoopState" where
  "loopStep settings st =
     (case queue st of [] \<Rightarrow> st | task # rest \<Rightarrow> iteration settings task rest st)"

text \<open>
  The measure of the loop: one for every queued task plus its minutes. An iteration
  removes the head, or replaces it by a remainder that is at least 15 minutes shorter
  than a head of more than 30 minutes.
\<close>

definition loopMeasure :: "LoopState \<Rightarrow> nat" where
  "loopMeasure st = sum_list (map (\<lambda>t. Suc (nat (durationMinutes t))) (queue st))"

lemma iteration_measure:
  "loopMeasure (iteration settings task rest st)
     < loopMeasure (st\<lparr>queue := task # rest\<rparr>)"
  by (auto simp: iteration_def loopMeasure_def partB_def Let_def split: option.splits)

lemma loopStep_measure:
  assumes "queue st \<noteq> []"
  shows "loopMeasure (loopStep settings st) < loopMeasure st"
proof (cases "queue st")
  case Nil
  with assms show ?thesis by simp
next
  case (Cons task rest)
  then have "st\<lparr>queue := task # rest\<rparr> = st" by simp
  with iteration_measure [of settings task rest st] Cons show ?thesis
    by (simp add: loopStep_def)
qed

function fittingLoop :: "UserSettings \<Rightarrow> LoopState \<Rightarrow> LoopState" where
  "fittingLoop settings st =
     (if queue st = [] then st else fittingLoop settings (loopStep settings st))"
  by pat_completeness auto
termination
  by (relation "measure (\<lambda>(settings, st). loopMeasure st)") (auto simp: loopStep_measure)

declare fittingLoop.simps [simp del]

subsection \<open>The entry point\<close>

record EngineResult =
  blocks :: "ScheduleBlock list"
  rolloverTasks :: "Task list"

definition initialGaps :: "Interval list \<Rightarrow> int \<Rightarrow> int \<Rightarrow> Gap list" where
  "initialGaps occupied cursor dayEnd =
     findGaps cursor dayEnd (mergeOccupied (js_sort (\<lambda>a b. occ_start a - occ_start b) occupied))"

definition rescheduleDay :: "Task list \<Rightarrow> UserSettings \<Rightarrow> EngineResult option" where
  "rescheduleDay tasks settings =
     (case fixedPass settings (fixedTasks tasks) of
        None \<Rightarrow> None
      | Some (fixedBlocks, occupied) \<Rightarrow>
          (case (timeToMinutes ''06:00'', timeToMinutes ''23:00'') of
             (Some (Num cursor), Some (Num dayEnd)) \<Rightarrow>
               (let st = fittingLoop settings
                      \<lparr>queue = floatingTasks tasks,
                       gaps = initialGaps occupied cursor dayEnd,
                       st_blocks = fixedBlocks,
                       rollover = []\<rparr>
                in Some \<lparr>blocks = st_blocks st, rolloverTasks = rollover st\<rparr>)
           | _ \<Rightarrow> None))"

section \<open>Predicates of the claims\<close>

text \<open>
  Two blocks overlap when their ranges \<open>[startTime, endTime)\<close> share a minute; a block
  is in a gap when it starts inside the gap's range.
\<close>

definition overlaps :: "ScheduleBlock \<Rightarrow> ScheduleBlock \<Rightarrow> bool" where
  "overlaps a b = (startTime a < endTime b \<and> startTime b < endTime a)"

definition in_gap :: "Gap \<Rightarrow> ScheduleBlock \<Rightarrow> bool" where
  "in_gap g b = (gap_start g \<le> startTime b \<and> startTime b < gap_end g)"

text \<open>
  The minutes that the unlocked blocks and the tasks of a list carry for one task id.
\<close>

definition blockMinutes :: "string \<Rightarrow> ScheduleBlock list \<Rightarrow> int" where
  "blockMinutes i bs =
     sum_list (map (\<lambda>b. if \<not> isLocked b \<and> taskId b = i then endTime b - startTime b else 0) bs)"

definition taskMinutes :: "string \<Rightarrow> Task list \<Rightarrow> int" where
  "taskMinutes i ts = sum_list (map (\<lambda>t. if task_id t = i then durationMinutes t else 0) ts)"

text \<open>
  Well-formed input, as the data model of the specification has it: the buffer is not
  negative, every duration is positive, and the start time of a fixed task, when it
  has one, is a clock time of the day.
\<close>

definition validStart :: "Task \<Rightarrow> bool" where
  "validStart t = (case fixedStartTime t of
       None \<Rightarrow> True
     | Some time \<Rightarrow> time = [] \<or>
         (case timeToMinutes time of Some (Num n) \<Rightarrow> 0 \<le> n \<and> n < 1440 | _ \<Rightarrow> False))"

definition wellFormed :: "Task list \<Rightarrow> UserSettings \<Rightarrow> bool" where
  "wellFormed tasks settings =
     (0 \<le> bufferMinutes settings \<and>
      (\<forall>t\<in>set tasks. 0 < durationMinutes t \<and> (task_type t \<noteq> FLOATING \<longrightarrow> validStart t)))"

text \<open>
  The fixed tasks that the pass over the fixed tasks does not skip: those whose
  \<^verbatim>\<open>fixedStartTime\<close> is truthy, in the order of the input.
\<close>

definition scheduledFixed :: "Task list \<Rightarrow> Task list" where
  "scheduledFixed tasks =
     filter (\<lambda>t. fixedStartTime t \<noteq> None \<and> fixedStartTime t \<noteq> Some []) (fixedTasks tasks)"

section \<open>Example inputs\<close>

definition mkTask :: "string \<Rightarrow> TaskType \<Rightarrow> int \<Rightarrow> int \<Rightarrow> bool \<Rightarrow> string option \<Rightarrow> Task" where
  "mkTask i ty p d s f = \<lparr>task_id = i, title = ''Task '' @ i, task_type = ty, priority = p,
     durationMinutes = d, isSplittable = s, status = PENDING, fixedStartTime = f\<rparr>"

definition zeroBuffer :: UserSettings where
  "zeroBuffer = \<lparr>workStart = ''09:00'', workEnd = ''17:00'', bufferMinutes = 0\<rparr>"

definition buffer10 :: UserSettings where
  "buffer10 = \<lparr>workStart = ''09:00'', workEnd = ''17:00'', bufferMinutes = 10\<rparr>"

definition buffer15 :: UserSettings where
  "buffer15 = \<lparr>workStart = ''09:00'', workEnd = ''17:00'', bufferMinutes = 15\<rparr>"

definition report :: Task where
  "report = \<lparr>task_id = ''A'', title = ''Report'', task_type = FLOATING, priority = 1,
     durationMinutes = 1100, isSplittable = True, status = PENDING, fixedStartTime = None\<rparr>"

definition splitDemo :: LoopState where
  "splitDemo = \<lparr>queue = [report],
     gaps = [\<lparr>gap_start = 360, gap_end = 1380, duration = 1020\<rparr>], st_blocks = [], rollover = []\<rparr>"

definition meetingAndWork :: "Task list" where
  "meetingAndWork = [mkTask ''1'' ANCHOR 1 90 False (Some ''09:00''),
                     mkTask ''A'' FLOATING 1 120 False None]"

definition twoFloating :: "Task list" where
  "twoFloating = [mkTask ''A'' FLOATING 1 60 False None, mkTask ''B'' FLOATING 2 30 False None]"

definition clashingAnchors :: "Task list" where
  "clashingAnchors = [mkTask ''1'' ANCHOR 1 60 False (Some ''09:00''),
                      mkTask ''2'' ANCHOR 1 60 False (Some ''09:30'')]"

definition earlyAnchor :: "Task list" where
  "earlyAnchor = [mkTask ''1'' ANCHOR 1 60 False (Some ''05:00'')]"

definition lateAnchor :: "Task list" where
  "lateAnchor = [mkTask ''1'' ANCHOR 1 30 False (Some ''23:30''),
                 mkTask ''A'' FLOATING 1 1050 False None]"

definition unscheduledAnchor :: "Task list" where
  "unscheduledAnchor = [mkTask ''1'' ANCHOR 1 60 False None]"

definition sharedId :: "Task list" where
  "sharedId = [mkTask ''1'' ANCHOR 1 60 False None,
               mkTask ''1'' INTERRUPT 1 30 False (Some ''10:00'')]"

definition shortRemainder :: "Task list" where
  "shortRemainder = [mkTask ''1'' ANCHOR 1 60 False (Some ''06:30''),
                     mkTask ''2'' ANCHOR 1 910 False (Some ''07:50''),
                     mkTask ''T'' FLOATING 1 31 True None]"

definition tightGap :: "Task list" where
  "tightGap = [mkTask ''1'' ANCHOR 1 1000 False (Some ''06:34''),
               mkTask ''A'' FLOATING 1 40 True None]"

text \<open>What the examples read off a block.\<close>

definition blockTimes :: "ScheduleBlock \<Rightarrow> string \<times> bool \<times> int \<times> int" where
  "blockTimes b = (taskId b, isLocked b, startTime b, endTime b)"

section \<open>Properties of the time codec\<close>

lemma is_digit_cases:
  "is_digit c \<longleftrightarrow> c = CHR ''0'' \<or> c = CHR ''1'' \<or> c = CHR ''2'' \<or> c = CHR ''3'' \<or> c = CHR ''4''
     \<or> c = CHR ''5'' \<or> c = CHR ''6'' \<or> c = CHR ''7'' \<or> c = CHR ''8'' \<or> c = CHR ''9''"
  by (simp add: is_digit_def digit_chars_def)

lemma digit_not_colon: "is_digit c \<Longrightarrow> c \<noteq> CHR '':''"
  by (auto simp: is_digit_cases)

lemma digit_not_ws: "is_digit c \<Longrightarrow> \<not> is_ws c"
  by (auto simp: is_digit_cases is_ws_def)

lemma digit_val_range: "is_digit c \<Longrightarrow> 0 \<le> digit_val c \<and> digit_val c < 10"
  by (auto simp: is_digit_cases digit_val_def digit_chars_def)

lemma digit_chars_nth_val: "is_digit c \<Longrightarrow> digit_chars ! nat (digit_val c) = c"
  by (auto simp: is_digit_cases digit_val_def digit_chars_def)

lemma lt10_cases: "(i::nat) < 10 \<Longrightarrow> i = 0 \<or> i = 1 \<or> i = 2 \<or> i = 3 \<or> i = 4 \<or> i = 5 \<or> i = 6 \<or> i = 7 \<or> i = 8 \<or> i = 9"
  by arith

lemma digit_chars_nth_digit: "i < 10 \<Longrightarrow> is_digit (digit_chars ! i)"
  by (drule lt10_cases) (auto simp: is_digit_def digit_chars_def)

lemma digit_val_nth: "i < 10 \<Longrightarrow> digit_val (digit_chars ! i) = int i"
  by (drule lt10_cases) (auto simp: digit_val_def digit_chars_def)

lemma digit_ascii: "is_digit c \<Longrightarrow> of_char c < (128::nat)"
  by (auto simp: is_digit_cases)

lemma digit_not_sign: "is_digit c \<Longrightarrow> c \<noteq> CHR ''+'' \<and> c \<noteq> CHR ''-''"
  by (auto simp: is_digit_cases)

lemma Number_js_two_digits:
  assumes "is_digit a" "is_digit b"
  shows "Number_js [a, b] = Some (Num (10 * digit_val a + digit_val b))"
proof -
  have ascii: "is_ascii [a, b]"
    using digit_ascii [OF assms(1)] digit_ascii [OF assms(2)] by (simp add: is_ascii_def)
  have trim: "trim [a, b] = [a, b]"
    using digit_not_ws [OF assms(1)] digit_not_ws [OF assms(2)] by (simp add: trim_def)
  have sign: "strip_sign [a, b] = [a, b]" "hd [a, b] \<noteq> CHR ''-''"
    using digit_not_sign [OF assms(1)] by (simp_all add: strip_sign_def)
  have lit: "is_numeric_literal [a, b]"
    using assms sign(1) by (simp add: is_numeric_literal_def is_unsigned_decimal_def)
  have digits: "all_digits [a, b]" using assms by (simp add: all_digits_def)
  have val: "dec_val [a, b] = 10 * digit_val a + digit_val b" by (simp add: dec_val_def)
  from digit_val_range [OF assms(1)] digit_val_range [OF assms(2)]
  have "is_exact (10 * digit_val a + digit_val b)" by (simp add: is_exact_def)
  with ascii trim sign lit digits val show ?thesis
    by (simp add: Number_js_def Let_def)
qed

lemma split_on_clock:
  assumes "a \<noteq> CHR '':''" "b \<noteq> CHR '':''" "c \<noteq> CHR '':''" "d \<noteq> CHR '':''"
  shows "split_on CHR '':'' [a, b, CHR '':'', c, d] = [[a, b], [c, d]]"
  using assms by simp

lemma timeToMinutes_clock:
  assumes "is_digit a" "is_digit b" "is_digit c" "is_digit d"
  shows "timeToMinutes [a, b, CHR '':'', c, d]
         = Some (Num ((10 * digit_val a + digit_val b) * 60 + (10 * digit_val c + digit_val d)))"
proof -
  let ?H = "10 * digit_val a + digit_val b" and ?M = "10 * digit_val c + digit_val d"
  from digit_val_range [OF assms(1)] digit_val_range [OF assms(2)]
    digit_val_range [OF assms(3)] digit_val_range [OF assms(4)]
  have r: "0 \<le> ?H" "?H < 100" "0 \<le> ?M" "?M < 100" by simp_all
  then have "is_exact (?H * 60)" "is_exact (?H * 60 + ?M)" by (simp_all add: is_exact_def)
  then have "js_add (js_mul (Some (Num ?H)) (Some (Num 60))) (Some (Num ?M))
      = Some (Num (?H * 60 + ?M))"
    by (simp add: js_add_def js_mul_def)
  moreover have "split_on CHR '':'' [a, b, CHR '':'', c, d] = [[a, b], [c, d]]"
    using assms by (intro split_on_clock) (simp_all add: digit_not_colon)
  ultimately show ?thesis
    using assms
    by (simp add: timeToMinutes_def Number_js_two_digits element_def Let_def del: split_on.simps)
qed

lemma split_on_no_sep: "sep \<notin> set s \<Longrightarrow> split_on sep s = [s]"
  by (induction s) auto

lemma js_add_NaN: "js_add a (Some NaN) = Some NaN"
  by (auto simp: js_add_def split: option.splits jsnum.splits)

lemma timeToMinutes_no_colon: "CHR '':'' \<notin> set s \<Longrightarrow> timeToMinutes s = Some NaN"
  by (simp add: timeToMinutes_def split_on_no_sep element_def js_add_NaN Let_def)

lemma padStart2_int_toString:
  assumes "0 \<le> k" "k < 100"
  shows "padStart2 (int_toString k) = [digit_chars ! nat (k div 10), digit_chars ! nat (k mod 10)]"
proof (cases "k < 10")
  case True
  with assms have "nat_digits (nat k) = [digit_chars ! nat k]"
    by (simp add: nat_digits.simps)
  moreover from True assms have "k div 10 = 0" "k mod 10 = k" by simp_all
  moreover have "digit_chars ! 0 = CHR ''0''" by (simp add: digit_chars_def)
  ultimately show ?thesis using assms
    by (simp add: padStart2_def int_toString_def)
next
  case False
  with assms have n: "\<not> nat k < 10" "nat k div 10 < 10" by simp_all
  have "nat_digits (nat k) = nat_digits (nat k div 10) @ [digit_chars ! (nat k mod 10)]"
    using n(1) by (subst nat_digits.simps) simp
  also have "nat_digits (nat k div 10) = [digit_chars ! (nat k div 10)]"
    using n(2) by (subst nat_digits.simps) simp
  finally have "nat_digits (nat k) = [digit_chars ! (nat k div 10), digit_chars ! (nat k mod 10)]"
    by simp
  moreover from assms have "nat k div 10 = nat (k div 10)" "nat k mod 10 = nat (k mod 10)"
    by (simp_all add: nat_div_distrib nat_mod_distrib)
  ultimately show ?thesis using assms
    by (simp add: padStart2_def int_toString_def)
qed

lemma minutesToTime_clock:
  assumes "0 \<le> n" "n < 6000"
  shows "minutesToTime (Num n)
         = [digit_chars ! nat (n div 60 div 10), digit_chars ! nat (n div 60 mod 10), CHR '':'',
            digit_chars ! nat (n mod 60 div 10), digit_chars ! nat (n mod 60 mod 10)]"
proof -
  from assms have h: "0 \<le> n div 60" "n div 60 < 100" by simp_all
  have "n mod 60 < 60" by simp
  then have m: "0 \<le> n mod 60" "n mod 60 < 100" by simp_all
  from assms have "js_rem n 60 = n mod 60" by (simp add: js_rem_def)
  then show ?thesis
    by (simp add: Let_def padStart2_int_toString [OF h] padStart2_int_toString [OF m])
qed

lemma two_digit_value:
  assumes "0 \<le> k" "k < 100"
  shows "is_digit (digit_chars ! nat (k div 10))" "is_digit (digit_chars ! nat (k mod 10))"
    "10 * digit_val (digit_chars ! nat (k div 10)) + digit_val (digit_chars ! nat (k mod 10)) = k"
proof -
  from assms have a: "nat (k div 10) < 10" by simp
  from assms have b: "nat (k mod 10) < 10" by simp
  show "is_digit (digit_chars ! nat (k div 10))" by (rule digit_chars_nth_digit [OF a])
  show "is_digit (digit_chars ! nat (k mod 10))" by (rule digit_chars_nth_digit [OF b])
  from assms have "int (nat (k div 10)) = k div 10" "int (nat (k mod 10)) = k mod 10"
    by simp_all
  then show "10 * digit_val (digit_chars ! nat (k div 10)) + digit_val (digit_chars ! nat (k mod 10)) = k"
    by (simp only: digit_val_nth [OF a] digit_val_nth [OF b] mult_div_mod_eq)
qed

lemma timeToMinutes_minutesToTime:
  assumes "0 \<le> n" "n < 6000"
  shows "timeToMinutes (minutesToTime (Num n)) = Some (Num n)"
proof -
  from assms have h: "0 \<le> n div 60" "n div 60 < 100" by simp_all
  have "n mod 60 < 60" by simp
  then have m: "0 \<le> n mod 60" "n mod 60 < 100" by simp_all
  note H = two_digit_value [OF h] and M = two_digit_value [OF m]
  show ?thesis
    by (simp only: minutesToTime_clock [OF assms] timeToMinutes_clock [OF H(1,2) M(1,2)]
        H(3) M(3) div_mult_mod_eq)
qed

lemma two_digit_string:
  assumes "is_digit a" "is_digit b"
  shows "padStart2 (int_toString (10 * digit_val a + digit_val b)) = [a, b]"
proof -
  let ?k = "10 * digit_val a + digit_val b"
  from digit_val_range [OF assms(1)] digit_val_range [OF assms(2)]
  have r: "0 \<le> digit_val a" "digit_val a < 10" "0 \<le> digit_val b" "digit_val b < 10"
    by simp_all
  then have k: "0 \<le> ?k" "?k < 100" by simp_all
  from r have dm: "?k div 10 = digit_val a" "?k mod 10 = digit_val b" by simp_all
  show ?thesis
    by (simp only: padStart2_int_toString [OF k] dm digit_chars_nth_val [OF assms(1)]
        digit_chars_nth_val [OF assms(2)])
qed

lemma div_mod_60:
  fixes H M :: int
  assumes "0 \<le> M" "M < 60"
  shows "(H * 60 + M) div 60 = H" "(H * 60 + M) mod 60 = M"
  using assms by simp_all

lemma minutesToTime_timeToMinutes:
  assumes "is_digit a" "is_digit b" "is_digit c" "is_digit d"
    and "10 * digit_val c + digit_val d \<le> 59"
  shows "map_option minutesToTime (timeToMinutes [a, b, CHR '':'', c, d]) = Some [a, b, CHR '':'', c, d]"
proof -
  let ?H = "10 * digit_val a + digit_val b" and ?M = "10 * digit_val c + digit_val d"
  from digit_val_range [OF assms(1)] digit_val_range [OF assms(2)]
    digit_val_range [OF assms(3)] digit_val_range [OF assms(4)]
  have r: "0 \<le> ?H" "0 \<le> ?M" by simp_all
  with assms(5) have "?M < 60" by simp
  from div_mod_60 [OF r(2) this]
  have hm: "(?H * 60 + ?M) div 60 = ?H" "(?H * 60 + ?M) mod 60 = ?M" by blast+
  from r have n0: "\<not> ?H * 60 + ?M < 0" by simp
  have "js_rem (?H * 60 + ?M) 60 = ?M"
    unfolding js_rem_def by (simp only: n0 if_False hm(2) abs_numeral)
  with hm(1) have "minutesToTime (Num (?H * 60 + ?M))
      = padStart2 (int_toString ?H) @ '':'' @ padStart2 (int_toString ?M)"
    by (simp only: minutesToTime.simps Let_def)
  also have "\<dots> = [a, b, CHR '':'', c, d]"
    by (simp only: two_digit_string [OF assms(1,2)] two_digit_string [OF assms(3,4)]) simp
  finally show ?thesis
    by (simp only: timeToMinutes_clock [OF assms(1-4)] option.map)
qed

text \<open>The result is a function of the first two fields of the split.\<close>

lemma timeToMinutes_fields:
  "split_on CHR '':'' t = h # m # others \<Longrightarrow>
   timeToMinutes t = js_add (js_mul (Number_js h) (Some (Num 60))) (Number_js m)"
  by (simp add: timeToMinutes_def element_def Let_def)

lemma js_NaN_absorbs:
  "js_mul (Some NaN) b = Some NaN" "js_add (Some NaN) b = Some NaN" "js_add a (Some NaN) = Some NaN"
  by (auto simp: js_mul_def js_add_def split: option.splits jsnum.splits)

lemma Number_js_not_numeric: "not_numeric f \<Longrightarrow> Number_js f = Some NaN"
  by (simp add: not_numeric_def Number_js_def Let_def)

lemma dec_val_nonneg:
  assumes "list_all is_digit ds"
  shows "0 \<le> dec_val ds"
proof -
  have "0 \<le> n \<Longrightarrow> list_all is_digit ds \<Longrightarrow> 0 \<le> foldl (\<lambda>n c. 10 * n + digit_val c) n ds" for n
  proof (induction ds arbitrary: n)
    case Nil
    then show ?case by simp
  next
    case (Cons c cs)
    from Cons.prems digit_val_range [of c] have "0 \<le> 10 * n + digit_val c" by simp
    from Cons.IH [OF this] Cons.prems(2) show ?case by simp
  qed
  with assms show ?thesis by (simp add: dec_val_def)
qed

lemma all_digits_literal:
  assumes "all_digits t"
  shows "is_numeric_literal t" "strip_sign t = t" "hd t \<noteq> CHR ''-''"
proof -
  from assms obtain c cs where t: "t = c # cs" and c: "is_digit c" and all: "\<forall>x\<in>set t. is_digit x"
    by (cases t) (auto simp: all_digits_def list_all_iff)
  from c t show sign: "strip_sign t = t" and "hd t \<noteq> CHR ''-''"
    using digit_not_sign [OF c] by (simp_all add: strip_sign_def)
  from all have "takeWhile is_digit t = t" "dropWhile is_digit t = []"
    by (simp_all add: takeWhile_eq_all_conv dropWhile_eq_Nil_conv)
  with t have "is_unsigned_decimal t" by (simp add: is_unsigned_decimal_def)
  with sign show "is_numeric_literal t" by (simp add: is_numeric_literal_def)
qed

lemma Number_js_plain:
  assumes "plain_field f" "is_exact (field_val f)"
  shows "Number_js f = Some (Num (field_val f))"
proof (cases "trim f = []")
  case True
  with assms show ?thesis by (simp add: plain_field_def field_val_def Number_js_def)
next
  case False
  with assms(1) have d: "all_digits (trim f)" and a: "is_ascii f" by (simp_all add: plain_field_def)
  note l = all_digits_literal [OF d]
  from False assms(2) have "is_exact (dec_val (trim f))" by (simp add: field_val_def)
  with False a d l show ?thesis by (simp add: Number_js_def field_val_def Let_def)
qed

lemma field_val_nonneg: "plain_field f \<Longrightarrow> 0 \<le> field_val f"
  using dec_val_nonneg [of "trim f"] by (auto simp: plain_field_def field_val_def all_digits_def)

lemma timeToMinutes_plain:
  assumes split: "split_on CHR '':'' t = h # m # others"
    and plain: "plain_field h" "plain_field m"
    and exact: "is_exact (field_val h * 60 + field_val m)"
  shows "timeToMinutes t = Some (Num (field_val h * 60 + field_val m))"
proof -
  note nn = field_val_nonneg [OF plain(1)] field_val_nonneg [OF plain(2)]
  from nn exact have e: "is_exact (field_val h)" "is_exact (field_val m)" "is_exact (field_val h * 60)"
    by (simp_all add: is_exact_def)
  from Number_js_plain [OF plain(1) e(1)] Number_js_plain [OF plain(2) e(2)] e(3) exact
  show ?thesis
    by (simp add: timeToMinutes_fields [OF split] js_mul_def js_add_def)
qed

lemma timeToMinutes_not_numeric:
  assumes "split_on CHR '':'' t = h # m # others" "not_numeric h \<or> not_numeric m"
  shows "timeToMinutes t = Some NaN"
  using assms(2)
  by (auto simp: timeToMinutes_fields [OF assms(1)] Number_js_not_numeric js_NaN_absorbs)

text \<open>
  Claim C8, as stated: \<^verbatim>\<open>timeToMinutes\<close> fails with a FormatError on malformed input.
  The function has no failing path. A malformed string gives a number: \<^verbatim>\<open>NaN\<close> for
  \<^verbatim>\<open>"ab:cd"\<close>, \<open>0\<close> for \<^verbatim>\<open>":"\<close> and \<open>62\<close> for \<^verbatim>\<open>"1:2:3"\<close>.
\<close>

theorem C8_counterexample:
  "timeToMinutes ''ab:cd'' = Some NaN \<and> timeToMinutes '':'' = Some (Num 0) \<and>
   timeToMinutes ''1:2:3'' = Some (Num 62)"
  by code_simp

text \<open>
  Claim C8, amended: on two digits, a colon and two digits \<^verbatim>\<open>timeToMinutes\<close> returns
  hours times 60 plus minutes. On malformed input it returns a value instead of
  failing: \<^verbatim>\<open>NaN\<close> on every string without a colon (the minutes are
  \<^verbatim>\<open>undefined\<close>); \<^verbatim>\<open>NaN\<close> on every string whose first or second field is ASCII,
  not blank and no numeric literal; and hours times 60 plus minutes on every string
  whose first two fields are ASCII and blank (counting 0) or runs of digits, whatever
  follows them, as long as a double holds the result exactly.
\<close>

theorem C8_timeToMinutes_total:
  "(is_digit a \<and> is_digit b \<and> is_digit c \<and> is_digit d \<longrightarrow>
      timeToMinutes [a, b, CHR '':'', c, d]
        = Some (Num ((10 * digit_val a + digit_val b) * 60 + (10 * digit_val c + digit_val d)))) \<and>
   (CHR '':'' \<notin> set s \<longrightarrow> timeToMinutes s = Some NaN) \<and>
   (split_on CHR '':'' t = h # m # others \<longrightarrow>
      (not_numeric h \<or> not_numeric m \<longrightarrow> timeToMinutes t = Some NaN) \<and>
      (plain_field h \<and> plain_field m \<and> is_exact (field_val h * 60 + field_val m) \<longrightarrow>
         timeToMinutes t = Some (Num (field_val h * 60 + field_val m))))"
proof (intro conjI impI)
  assume "is_digit a \<and> is_digit b \<and> is_digit c \<and> is_digit d"
  then show "timeToMinutes [a, b, CHR '':'', c, d]
        = Some (Num ((10 * digit_val a + digit_val b) * 60 + (10 * digit_val c + digit_val d)))"
    by (simp add: timeToMinutes_clock)
next
  assume "CHR '':'' \<notin> set s"
  then show "timeToMinutes s = Some NaN" by (rule timeToMinutes_no_colon)
next
  assume "split_on CHR '':'' t = h # m # others" "not_numeric h \<or> not_numeric m"
  then show "timeToMinutes t = Some NaN" by (rule timeToMinutes_not_numeric)
next
  assume "split_on CHR '':'' t = h # m # others"
    "plain_field h \<and> plain_field m \<and> is_exact (field_val h * 60 + field_val m)"
  then show "timeToMinutes t = Some (Num (field_val h * 60 + field_val m))"
    by (intro timeToMinutes_plain) simp_all
qed

theorem C8_timeToMinutes_total_witness:
  "timeToMinutes ''09:30'' = Some (Num 570) \<and> timeToMinutes ''0930'' = Some NaN \<and>
   timeToMinutes ''12:3x'' = Some NaN \<and> timeToMinutes '' 9:5:7'' = Some (Num 545)"
proof -
  have d: "is_digit CHR ''0''" "is_digit CHR ''9''" "is_digit CHR ''3''"
    by (simp_all add: is_digit_def digit_chars_def)
  have v: "digit_val CHR ''0'' = 0" "digit_val CHR ''9'' = 9" "digit_val CHR ''3'' = 3"
    by (simp_all add: digit_val_def digit_chars_def)
  have n: "CHR '':'' \<notin> set ''0930''" by simp
  have s1: "split_on CHR '':'' ''12:3x'' = ''12'' # ''3x'' # []" by simp
  have n1: "not_numeric ''3x''" by code_simp
  have s2: "split_on CHR '':'' '' 9:5:7'' = '' 9'' # ''5'' # [''7'']" by simp
  have p2: "plain_field '' 9''" "plain_field ''5''" "field_val '' 9'' = 9" "field_val ''5'' = 5"
    by code_simp+
  then have e2: "is_exact (field_val '' 9'' * 60 + field_val ''5'')" by (simp add: is_exact_def)
  from C8_timeToMinutes_total [of "CHR ''0''" "CHR ''9''" "CHR ''3''" "CHR ''0''" "''0930''"
      "''12:3x''" "''12''" "''3x''" "[]"] d v n s1 n1
  have 1: "timeToMinutes ''09:30'' = Some (Num 570)" "timeToMinutes ''0930'' = Some NaN"
    "timeToMinutes ''12:3x'' = Some NaN" by simp_all
  from C8_timeToMinutes_total [of _ _ _ _ _ "'' 9:5:7''" "'' 9''" "''5''" "[''7'']"] s2 p2 e2
  have 2: "timeToMinutes '' 9:5:7'' = Some (Num 545)" by simp
  from 1 2 show ?thesis by simp
qed

text \<open>
  Claim C10: the codec round-trips. For every integer \<open>0 \<le> n < 1440\<close>,
  \<^verbatim>\<open>timeToMinutes(minutesToTime(n)) = n\<close>; and for every canonical string of two
  digits, a colon and two digits with hours at most 23 and minutes at most 59,
  \<^verbatim>\<open>minutesToTime(timeToMinutes(s)) = s\<close>.
\<close>

theorem C10_roundtrip:
  "(0 \<le> n \<and> n < 1440 \<longrightarrow> timeToMinutes (minutesToTime (Num n)) = Some (Num n)) \<and>
   (is_digit a \<and> is_digit b \<and> is_digit c \<and> is_digit d \<and>
    10 * digit_val a + digit_val b \<le> 23 \<and> 10 * digit_val c + digit_val d \<le> 59 \<longrightarrow>
      map_option minutesToTime (timeToMinutes [a, b, CHR '':'', c, d]) = Some [a, b, CHR '':'', c, d])"
proof (intro conjI impI)
  assume "0 \<le> n \<and> n < 1440"
  then show "timeToMinutes (minutesToTime (Num n)) = Some (Num n)"
    by (intro timeToMinutes_minutesToTime) simp_all
next
  assume "is_digit a \<and> is_digit b \<and> is_digit c \<and> is_digit d \<and>
    10 * digit_val a + digit_val b \<le> 23 \<and> 10 * digit_val c + digit_val d \<le> 59"
  then show "map_option minutesToTime (timeToMinutes [a, b, CHR '':'', c, d]) = Some [a, b, CHR '':'', c, d]"
    by (intro minutesToTime_timeToMinutes) simp_all
qed

theorem C10_roundtrip_witness:
  "timeToMinutes (minutesToTime (Num 545)) = Some (Num 545) \<and>
   minutesToTime (Num 545) = ''09:05'' \<and>
   map_option minutesToTime (timeToMinutes ''23:59'') = Some ''23:59''"
proof -
  have d: "is_digit CHR ''2'' \<and> is_digit CHR ''3'' \<and> is_digit CHR ''5'' \<and> is_digit CHR ''9'' \<and>
    10 * digit_val CHR ''2'' + digit_val CHR ''3'' \<le> 23 \<and> 10 * digit_val CHR ''5'' + digit_val CHR ''9'' \<le> 59"
    by (simp add: is_digit_def digit_val_def digit_chars_def)
  have "minutesToTime (Num 545) = ''09:05''" by code_simp
  with C10_roundtrip [of 545 "CHR ''2''" "CHR ''3''" "CHR ''5''" "CHR ''9''"] d show ?thesis
    by simp
qed

section \<open>The fitting loop, one iteration at a time\<close>

lemma fittingLoop_funpow:
  "\<exists>n \<le> loopMeasure st. queue ((loopStep settings ^^ n) st) = [] \<and>
       fittingLoop settings st = (loopStep settings ^^ n) st"
proof (induction settings st rule: fittingLoop.induct)
  case (1 settings st)
  show ?case
  proof (cases "queue st = []")
    case True
    then have "queue ((loopStep settings ^^ 0) st) = [] \<and>
       fittingLoop settings st = (loopStep settings ^^ 0) st"
      by (simp add: fittingLoop.simps)
    then show ?thesis by blast
  next
    case False
    from "1.IH" [OF False] obtain n where n: "n \<le> loopMeasure (loopStep settings st)"
      "queue ((loopStep settings ^^ n) (loopStep settings st)) = []"
      "fittingLoop settings (loopStep settings st) = (loopStep settings ^^ n) (loopStep settings st)"
      by blast
    from False have "fittingLoop settings st = fittingLoop settings (loopStep settings st)"
      by (subst fittingLoop.simps) simp
    with n have "queue ((loopStep settings ^^ Suc n) st) = [] \<and>
       fittingLoop settings st = (loopStep settings ^^ Suc n) st"
      by (simp add: funpow_swap1)
    moreover from n(1) loopStep_measure [OF False, of settings] have "Suc n \<le> loopMeasure st"
      by simp
    ultimately show ?thesis by blast
  qed
qed

lemma iteration_cases [case_names place split roll]:
  obtains
    (place) i where "firstFit (gaps st) (durationMinutes task) = Some i"
      "iteration settings task rest st =
         st\<lparr>queue := rest,
            gaps := (gaps st)[i := consume (durationMinutes task + bufferMinutes settings) (gaps st ! i)],
            st_blocks := st_blocks st @ [placedBlock task (gap_start (gaps st ! i))]\<rparr>"
  | (split) j where "firstFit (gaps st) (durationMinutes task) = None"
      "isSplittable task" "30 < durationMinutes task"
      "largestGap (gaps st) = Some j" "15 \<le> duration (gaps st ! j)"
      "iteration settings task rest st =
         st\<lparr>queue := partB task (durationMinutes task
                      - max 15 (duration (gaps st ! j) - bufferMinutes settings)) # rest,
            gaps := (gaps st)[j := consume (max 15 (duration (gaps st ! j) - bufferMinutes settings)
                      + bufferMinutes settings) (gaps st ! j)],
            st_blocks := st_blocks st @ [partABlock task (gap_start (gaps st ! j))
                      (max 15 (duration (gaps st ! j) - bufferMinutes settings))]\<rparr>"
  | (roll) "firstFit (gaps st) (durationMinutes task) = None"
      "iteration settings task rest st = st\<lparr>queue := rest, rollover := rollover st @ [task]\<rparr>"
proof (cases "firstFit (gaps st) (durationMinutes task)")
  case (Some i)
  then show ?thesis by (intro place [of i]) (simp_all add: iteration_def)
next
  case None
  show ?thesis
  proof (cases "isSplittable task \<and> 30 < durationMinutes task")
    case False
    with None show ?thesis by (intro roll) (auto simp: iteration_def)
  next
    case True
    show ?thesis
    proof (cases "largestGap (gaps st)")
      case lg: None
      with None True show ?thesis by (intro roll) (simp_all add: iteration_def)
    next
      case (Some j)
      show ?thesis
      proof (cases "15 \<le> duration (gaps st ! j)")
        case False
        with None True Some show ?thesis by (intro roll) (simp_all add: iteration_def)
      next
        case big: True
        with None True Some show ?thesis
          by (intro split [of j]) (simp_all add: iteration_def Let_def)
      qed
    qed
  qed
qed

lemma iteration_queue:
  "queue (iteration settings task rest st) = rest \<or>
   (\<exists>remainder. queue (iteration settings task rest st) = remainder # rest \<and>
       task_id remainder = task_id task \<and>
       durationMinutes remainder + 15 \<le> durationMinutes task \<and> 30 < durationMinutes task)"
  by (rule iteration_cases [where st=st and task=task and settings=settings and rest=rest])
    (simp_all add: partB_def)

text \<open>
  Claim C9: the fitting loop terminates on every state. After at most \<open>loopMeasure\<close>
  iterations the queue is empty, and that state is the loop's result; an iteration on
  a queue \<open>task # rest\<close> leaves \<open>rest\<close>, or \<open>rest\<close> behind one re-inserted remainder
  whose minutes are strictly fewer than the task's.
\<close>

theorem C9_fitting_loop_terminates:
  "(\<exists>n \<le> loopMeasure st. queue ((loopStep settings ^^ n) st) = [] \<and>
       fittingLoop settings st = (loopStep settings ^^ n) st) \<and>
   (queue st = task # rest \<longrightarrow>
      queue (loopStep settings st) = rest \<or>
      (\<exists>remainder. queue (loopStep settings st) = remainder # rest \<and>
         durationMinutes remainder < durationMinutes task))"
proof (intro conjI impI)
  show "\<exists>n \<le> loopMeasure st. queue ((loopStep settings ^^ n) st) = [] \<and>
       fittingLoop settings st = (loopStep settings ^^ n) st"
    by (rule fittingLoop_funpow)
next
  assume q: "queue st = task # rest"
  from iteration_queue [of settings task rest st] q
  show "queue (loopStep settings st) = rest \<or>
      (\<exists>remainder. queue (loopStep settings st) = remainder # rest \<and>
         durationMinutes remainder < durationMinutes task)"
    by (auto simp: loopStep_def)
qed

theorem C9_fitting_loop_terminates_witness:
  "(\<exists>n \<le> loopMeasure splitDemo. queue ((loopStep zeroBuffer ^^ n) splitDemo) = [] \<and>
       fittingLoop zeroBuffer splitDemo = (loopStep zeroBuffer ^^ n) splitDemo) \<and>
   (queue (loopStep zeroBuffer splitDemo) = [] \<or>
      (\<exists>remainder. queue (loopStep zeroBuffer splitDemo) = [remainder] \<and>
         durationMinutes remainder < 1100))"
proof -
  have "queue splitDemo = report # []" "durationMinutes report = 1100"
    by (simp_all add: splitDemo_def report_def)
  with C9_fitting_loop_terminates [of splitDemo zeroBuffer report "[]"] show ?thesis
    by simp
qed

section \<open>Sorting, merging and gap finding\<close>

subsection \<open>The sort\<close>

lemma insert_by_key:
  assumes "\<And>a b. cmp a b \<le> 0 \<longleftrightarrow> f a \<le> f b"
  shows "insert_by cmp x ys = insort_key f x ys"
  by (induction ys) (simp_all add: assms)

lemma js_sort_key:
  assumes "\<And>a b. cmp a b \<le> 0 \<longleftrightarrow> f a \<le> f b"
  shows "js_sort cmp xs = sort_key f xs"
  by (induction xs) (simp_all add: js_sort_def insert_by_key [of cmp f, OF assms])

lemma set_insert_by: "set (insert_by cmp x ys) = insert x (set ys)"
  by (induction ys) auto

lemma set_js_sort: "set (js_sort cmp xs) = set xs"
  by (induction xs) (simp_all add: js_sort_def set_insert_by)

lemma sum_list_insert_by:
  "sum_list (map f (insert_by cmp x ys)) = (f x :: int) + sum_list (map f ys)"
  by (induction ys) (simp_all add: algebra_simps)

lemma sum_list_js_sort: "sum_list (map f (js_sort cmp xs)) = sum_list (map (f :: 'a \<Rightarrow> int) xs)"
  by (induction xs) (simp_all add: js_sort_def sum_list_insert_by)

lemma sorted_occupied:
  "sorted (map occ_start (js_sort (\<lambda>a b. occ_start a - occ_start b) occupied))"
proof -
  have "js_sort (\<lambda>a b. occ_start a - occ_start b) occupied = sort_key occ_start occupied"
    by (rule js_sort_key) simp
  then show ?thesis by simp
qed

subsection \<open>The merge\<close>

lemma mergeLoop_sorted:
  "sorted (map occ_start (current # xs)) \<Longrightarrow>
   sorted (map occ_start (mergeLoop current xs)) \<and>
   (\<forall>m\<in>set (mergeLoop current xs). occ_start current \<le> occ_start m)"
proof (induction xs arbitrary: current)
  case Nil
  then show ?case by simp
next
  case (Cons x xs)
  show ?case
  proof (cases "occ_start x < occ_end current")
    case True
    let ?c = "current\<lparr>occ_end := max (occ_end current) (occ_end x)\<rparr>"
    from Cons.prems have "sorted (map occ_start (?c # xs))" by auto
    from Cons.IH [OF this] True show ?thesis by simp
  next
    case False
    from Cons.prems have "sorted (map occ_start (x # xs))" by simp
    from Cons.IH [OF this] False Cons.prems show ?thesis by auto
  qed
qed

lemma mergeLoop_covers:
  "sorted (map occ_start (current # xs)) \<Longrightarrow> x \<in> set (current # xs) \<Longrightarrow>
   \<exists>m\<in>set (mergeLoop current xs). occ_start m \<le> occ_start x \<and> occ_end x \<le> occ_end m"
proof (induction xs arbitrary: current x)
  case Nil
  then show ?case by simp
next
  case (Cons y ys)
  show ?case
  proof (cases "occ_start y < occ_end current")
    case True
    let ?c = "current\<lparr>occ_end := max (occ_end current) (occ_end y)\<rparr>"
    from Cons.prems have s: "sorted (map occ_start (?c # ys))" by auto
    from Cons.prems have le: "occ_start current \<le> occ_start y" by simp
    show ?thesis
    proof (cases "x \<in> set ys")
      case True
      then have "x \<in> set (?c # ys)" by simp
      from Cons.IH [OF s this] \<open>occ_start y < occ_end current\<close> show ?thesis by simp
    next
      case False
      with Cons.prems have "x = current \<or> x = y" by auto
      have "?c \<in> set (?c # ys)" by simp
      from Cons.IH [OF s this]
      obtain m where m: "m \<in> set (mergeLoop ?c ys)" "occ_start m \<le> occ_start ?c"
          "occ_end ?c \<le> occ_end m"
        by blast
      from m(2) have m2: "occ_start m \<le> occ_start current" by simp
      from m(3) have m3: "occ_end current \<le> occ_end m" "occ_end y \<le> occ_end m" by simp_all
      from m(1) True have "m \<in> set (mergeLoop current (y # ys))"
        using \<open>occ_start y < occ_end current\<close> by simp
      moreover have "occ_start m \<le> occ_start x \<and> occ_end x \<le> occ_end m"
        using \<open>x = current \<or> x = y\<close> m2 m3 le by auto
      ultimately show ?thesis by blast
    qed
  next
    case False
    from Cons.prems have s: "sorted (map occ_start (y # ys))" by simp
    show ?thesis
    proof (cases "x = current")
      case True
      with False show ?thesis by simp
    next
      case ne: False
      with Cons.prems have "x \<in> set (y # ys)" by auto
      from Cons.IH [OF s this] False show ?thesis by auto
    qed
  qed
qed

lemma mergeLoop_starts:
  "m \<in> set (mergeLoop current xs) \<Longrightarrow> occ_start m \<in> occ_start ` set (current # xs)"
proof (induction xs arbitrary: current)
  case Nil
  then show ?case by simp
next
  case (Cons y ys)
  show ?case
  proof (cases "occ_start y < occ_end current")
    case True
    with Cons.prems Cons.IH [of "current\<lparr>occ_end := max (occ_end current) (occ_end y)\<rparr>"]
    show ?thesis by auto
  next
    case False
    with Cons.prems Cons.IH [of y] show ?thesis by auto
  qed
qed

lemma mergeLoop_proper:
  "\<forall>x\<in>set (current # xs). occ_start x \<le> occ_end x \<Longrightarrow>
   \<forall>m\<in>set (mergeLoop current xs). occ_start m \<le> occ_end m"
proof (induction xs arbitrary: current)
  case Nil
  then show ?case by simp
next
  case (Cons y ys)
  show ?case
  proof (cases "occ_start y < occ_end current")
    case True
    let ?c = "current\<lparr>occ_end := max (occ_end current) (occ_end y)\<rparr>"
    from Cons.prems have "\<forall>x\<in>set (?c # ys). occ_start x \<le> occ_end x" by auto
    from Cons.IH [OF this] True show ?thesis by simp
  next
    case False
    from Cons.prems have "\<forall>x\<in>set (y # ys). occ_start x \<le> occ_end x" by simp
    from Cons.IH [OF this] False Cons.prems show ?thesis by simp
  qed
qed

text \<open>The merged list of a sorted list of ranges.\<close>

lemma mergeOccupied_sorted:
  "sorted (map occ_start occupied) \<Longrightarrow> sorted (map occ_start (mergeOccupied occupied))"
proof (cases occupied)
  case Nil
  then show ?thesis by (simp add: mergeOccupied_def)
next
  case (Cons first rest)
  assume "sorted (map occ_start occupied)"
  with Cons mergeLoop_sorted [of first rest] show ?thesis
    by (simp add: mergeOccupied_def)
qed

lemma mergeOccupied_covers:
  assumes "sorted (map occ_start occupied)" "x \<in> set occupied"
  shows "\<exists>m\<in>set (mergeOccupied occupied). occ_start m \<le> occ_start x \<and> occ_end x \<le> occ_end m"
proof (cases occupied)
  case Nil
  with assms show ?thesis by simp
next
  case (Cons first rest)
  with assms have "sorted (map occ_start (first # rest))" "x \<in> set (first # rest)" by simp_all
  from mergeLoop_covers [OF this] Cons show ?thesis
    by (simp add: mergeOccupied_def)
qed

lemma mergeOccupied_starts:
  assumes "m \<in> set (mergeOccupied occupied)"
  shows "occ_start m \<in> occ_start ` set occupied"
proof (cases occupied)
  case Nil
  with assms show ?thesis by (simp add: mergeOccupied_def)
next
  case (Cons first rest)
  with assms have "m \<in> set (mergeLoop first rest)" by (simp add: mergeOccupied_def)
  from mergeLoop_starts [OF this] Cons show ?thesis by simp
qed

lemma mergeOccupied_proper:
  assumes "\<forall>x\<in>set occupied. occ_start x \<le> occ_end x"
  shows "\<forall>m\<in>set (mergeOccupied occupied). occ_start m \<le> occ_end m"
proof (cases occupied)
  case Nil
  then show ?thesis by (simp add: mergeOccupied_def)
next
  case (Cons first rest)
  with assms have "\<forall>x\<in>set (first # rest). occ_start x \<le> occ_end x" by simp
  from mergeLoop_proper [OF this] Cons show ?thesis by (simp add: mergeOccupied_def)
qed

subsection \<open>The gaps\<close>

lemma findGaps_shape:
  "g \<in> set (findGaps cursor dayEnd occs) \<Longrightarrow>
   duration g = gap_end g - gap_start g \<and> gap_start g < gap_end g \<and> cursor \<le> gap_start g"
proof (induction occs arbitrary: cursor)
  case Nil
  then show ?case by (auto split: if_splits)
next
  case (Cons occ rest)
  show ?case
  proof (cases "occ_end occ \<le> cursor")
    case True
    with Cons.prems have "g \<in> set (findGaps cursor dayEnd rest)" by simp
    from Cons.IH [OF this] show ?thesis .
  next
    case False
    with Cons.prems consider
      (here) "cursor < occ_start occ"
        "g = \<lparr>gap_start = cursor, gap_end = occ_start occ, duration = occ_start occ - cursor\<rparr>"
      | (later) "g \<in> set (findGaps (max cursor (occ_end occ)) dayEnd rest)"
      by (auto split: if_splits)
    then show ?thesis
    proof cases
      case here
      then show ?thesis by simp
    next
      case later
      from Cons.IH [OF this] show ?thesis by simp
    qed
  qed
qed

lemma findGaps_end:
  "g \<in> set (findGaps cursor dayEnd occs) \<Longrightarrow>
   gap_end g = dayEnd \<or> gap_end g \<in> occ_start ` set occs"
proof (induction occs arbitrary: cursor)
  case Nil
  then show ?case by (auto split: if_splits)
next
  case (Cons occ rest)
  show ?case
  proof (cases "occ_end occ \<le> cursor")
    case True
    with Cons.prems have "g \<in> set (findGaps cursor dayEnd rest)" by simp
    from Cons.IH [OF this] show ?thesis by auto
  next
    case False
    with Cons.prems consider
      (here) "g = \<lparr>gap_start = cursor, gap_end = occ_start occ, duration = occ_start occ - cursor\<rparr>"
      | (later) "g \<in> set (findGaps (max cursor (occ_end occ)) dayEnd rest)"
      by (auto split: if_splits)
    then show ?thesis
    proof cases
      case here
      then show ?thesis by simp
    next
      case later
      from Cons.IH [OF this] show ?thesis by auto
    qed
  qed
qed

lemma findGaps_avoids:
  "sorted (map occ_start occs) \<Longrightarrow> g \<in> set (findGaps cursor dayEnd occs) \<Longrightarrow>
   x \<in> set occs \<Longrightarrow> gap_end g \<le> occ_start x \<or> occ_end x \<le> gap_start g"
proof (induction occs arbitrary: cursor)
  case Nil
  then show ?case by simp
next
  case (Cons occ rest)
  from Cons.prems(1) have srt: "sorted (map occ_start rest)"
    and first: "\<forall>y\<in>set rest. occ_start occ \<le> occ_start y" by simp_all
  show ?case
  proof (cases "occ_end occ \<le> cursor")
    case True
    with Cons.prems have g: "g \<in> set (findGaps cursor dayEnd rest)" by simp
    show ?thesis
    proof (cases "x = occ")
      case True
      with findGaps_shape [OF g] \<open>occ_end occ \<le> cursor\<close> show ?thesis by simp
    next
      case False
      with Cons.prems have "x \<in> set rest" by simp
      from Cons.IH [OF srt g this] show ?thesis .
    qed
  next
    case False
    with Cons.prems consider
      (here) "g = \<lparr>gap_start = cursor, gap_end = occ_start occ, duration = occ_start occ - cursor\<rparr>"
      | (later) "g \<in> set (findGaps (max cursor (occ_end occ)) dayEnd rest)"
      by (auto split: if_splits)
    then show ?thesis
    proof cases
      case here
      with Cons.prems(3) first show ?thesis by auto
    next
      case later
      show ?thesis
      proof (cases "x = occ")
        case True
        with findGaps_shape [OF later] show ?thesis by simp
      next
        case False
        with Cons.prems have "x \<in> set rest" by simp
        from Cons.IH [OF srt later this] show ?thesis .
      qed
    qed
  qed
qed

lemma findGaps_ordered:
  "\<forall>x\<in>set occs. occ_start x \<le> occ_end x \<Longrightarrow>
   sorted_wrt (\<lambda>g h. gap_end g \<le> gap_start h) (findGaps cursor dayEnd occs)"
proof (induction occs arbitrary: cursor)
  case Nil
  then show ?case by simp
next
  case (Cons occ rest)
  from Cons.prems have rest: "\<forall>x\<in>set rest. occ_start x \<le> occ_end x"
    and occ: "occ_start occ \<le> occ_end occ" by simp_all
  show ?case
  proof (cases "occ_end occ \<le> cursor")
    case True
    with Cons.IH [OF rest, of cursor] show ?thesis by simp
  next
    case False
    have "\<forall>h\<in>set (findGaps (max cursor (occ_end occ)) dayEnd rest). occ_start occ \<le> gap_start h"
      using findGaps_shape [of _ "max cursor (occ_end occ)" dayEnd rest] occ by fastforce
    with False Cons.IH [OF rest, of "max cursor (occ_end occ)"] show ?thesis by simp
  qed
qed

text \<open>A minute lies in at most one of a list of ordered gaps.\<close>

lemma ordered_gaps_unique:
  assumes "sorted_wrt (\<lambda>g h. gap_end g \<le> gap_start h) gs"
    and "i < length gs" "j < length gs"
    and "gap_start (gs ! i) \<le> t" "t < gap_end (gs ! i)"
    and "gap_start (gs ! j) \<le> t" "t < gap_end (gs ! j)"
  shows "i = j"
proof (rule ccontr)
  assume "i \<noteq> j"
  then consider "i < j" | "j < i" by arith
  then show False
  proof cases
    case 1
    from sorted_wrt_nth_less [OF assms(1) 1 assms(3)]
    have "gap_end (gs ! i) \<le> gap_start (gs ! j)" .
    with assms show False by simp
  next
    case 2
    from sorted_wrt_nth_less [OF assms(1) 2 assms(2)]
    have "gap_end (gs ! j) \<le> gap_start (gs ! i)" .
    with assms show False by simp
  qed
qed

section \<open>Invariants of the fitting loop\<close>

definition floatingBlocks :: "ScheduleBlock list \<Rightarrow> ScheduleBlock list" where
  "floatingBlocks bs = filter (\<lambda>b. \<not> isLocked b) bs"

definition orderedGaps :: "Gap list \<Rightarrow> bool" where
  "orderedGaps gs = sorted_wrt (\<lambda>g h. gap_end g \<le> gap_start h) gs"

definition gapsInv :: "Gap list \<Rightarrow> Gap list \<Rightarrow> bool" where
  "gapsInv G gs = (length gs = length G \<and>
     (\<forall>i<length G. gap_end (gs ! i) = gap_end (G ! i) \<and> gap_start (G ! i) \<le> gap_start (gs ! i) \<and>
        gap_start (gs ! i) + duration (gs ! i) = gap_end (G ! i)))"

definition blockInv :: "int \<Rightarrow> Gap list \<Rightarrow> Gap list \<Rightarrow> ScheduleBlock \<Rightarrow> bool" where
  "blockInv buf G gs b = (startTime b < endTime b \<and>
     (\<exists>i<length G. gap_start (G ! i) \<le> startTime b \<and> endTime b \<le> gap_end (G ! i) \<and>
        endTime b + buf \<le> gap_start (gs ! i)))"

definition separated :: "int \<Rightarrow> Gap list \<Rightarrow> ScheduleBlock \<Rightarrow> ScheduleBlock \<Rightarrow> bool" where
  "separated buf G a b = (\<forall>g\<in>set G. in_gap g a \<and> in_gap g b \<longrightarrow> endTime a + buf \<le> startTime b)"

definition loopInv :: "int \<Rightarrow> Gap list \<Rightarrow> LoopState \<Rightarrow> bool" where
  "loopInv buf G st = (gapsInv G (gaps st) \<and> (\<forall>t\<in>set (queue st). 0 < durationMinutes t) \<and>
     (\<forall>b\<in>set (floatingBlocks (st_blocks st)). blockInv buf G (gaps st) b) \<and>
     sorted_wrt (separated buf G) (floatingBlocks (st_blocks st)))"

lemma firstFit_Some:
  "firstFit gs d = Some i \<Longrightarrow> i < length gs \<and> d \<le> duration (gs ! i)"
  by (induction gs arbitrary: i) (auto split: if_splits)

lemma firstFit_None: "firstFit gs d = None \<Longrightarrow> g \<in> set gs \<Longrightarrow> duration g < d"
  by (induction gs) (auto split: if_splits)

lemma largestGap_Some: "largestGap gs = Some j \<Longrightarrow> j < length gs"
proof -
  assume "largestGap gs = Some j"
  then obtain js where "js_sort (\<lambda>a b. duration (gs ! b) - duration (gs ! a)) [0..<length gs] = j # js"
    by (auto simp: largestGap_def split: list.splits)
  then have "j \<in> set (js_sort (\<lambda>a b. duration (gs ! b) - duration (gs ! a)) [0..<length gs])"
    by simp
  then show ?thesis by (simp add: set_js_sort)
qed

lemma fittingLoop_invariant:
  assumes "P st"
    and "\<And>st task rest. P st \<Longrightarrow> queue st = task # rest \<Longrightarrow> P (iteration settings task rest st)"
  shows "P (fittingLoop settings st)"
  using assms
proof (induction settings st rule: fittingLoop.induct)
  case (1 settings st)
  show ?case
  proof (cases "queue st")
    case Nil
    with "1.prems"(1) show ?thesis by (simp add: fittingLoop.simps)
  next
    case (Cons task rest)
    then have ne: "queue st \<noteq> []" by simp
    have "loopStep settings st = iteration settings task rest st"
      by (simp add: loopStep_def Cons)
    with "1.prems"(2) [OF "1.prems"(1) Cons] have step: "P (loopStep settings st)"
      by (simp only:)
    have "P (fittingLoop settings (loopStep settings st))"
      by (rule "1.IH" [OF ne step "1.prems"(2)])
    moreover have "fittingLoop settings st = fittingLoop settings (loopStep settings st)"
      using ne by (subst fittingLoop.simps) (simp only: if_False)
    ultimately show ?thesis by (simp only:)
  qed
qed

lemma gapsInv_consume:
  assumes inv: "gapsInv G gs" and i: "i < length gs" and c: "0 \<le> c"
  shows "gapsInv G (gs[i := consume c (gs ! i)])"
  unfolding gapsInv_def
proof (intro conjI allI impI)
  from inv show "length (gs[i := consume c (gs ! i)]) = length G"
    by (simp add: gapsInv_def)
next
  fix k assume k: "k < length G"
  with inv have old: "gap_end (gs ! k) = gap_end (G ! k)" "gap_start (G ! k) \<le> gap_start (gs ! k)"
    "gap_start (gs ! k) + duration (gs ! k) = gap_end (G ! k)" and len: "length gs = length G"
    by (simp_all add: gapsInv_def)
  show "gap_end (gs[i := consume c (gs ! i)] ! k) = gap_end (G ! k)"
    using old(1) i by (cases "k = i") (simp_all add: consume_def)
  show "gap_start (G ! k) \<le> gap_start (gs[i := consume c (gs ! i)] ! k)"
    using old(2) i c by (cases "k = i") (simp_all add: consume_def)
  show "gap_start (gs[i := consume c (gs ! i)] ! k) + duration (gs[i := consume c (gs ! i)] ! k)
          = gap_end (G ! k)"
    using old(3) i by (cases "k = i") (simp_all add: consume_def)
qed

lemma blockInv_consume:
  assumes "blockInv buf G gs b" "i < length gs" "0 \<le> c"
  shows "blockInv buf G (gs[i := consume c (gs ! i)]) b"
proof -
  from assms(1) obtain k where k: "k < length G" "gap_start (G ! k) \<le> startTime b"
      "endTime b \<le> gap_end (G ! k)" "endTime b + buf \<le> gap_start (gs ! k)"
    and pos: "startTime b < endTime b"
    by (auto simp: blockInv_def)
  have "gap_start (gs ! k) \<le> gap_start (gs[i := consume c (gs ! i)] ! k)"
    using assms(2,3) by (cases "k = i") (simp_all add: consume_def)
  with k pos show ?thesis unfolding blockInv_def by (intro conjI exI [of _ k]) simp_all
qed

lemma blockInv_in_gap:
  assumes ord: "orderedGaps G" and b: "blockInv buf G gs b" and g: "g \<in> set G" "in_gap g b"
  shows "\<exists>k<length G. g = G ! k \<and> endTime b + buf \<le> gap_start (gs ! k)"
proof -
  from b obtain k where k: "k < length G" "gap_start (G ! k) \<le> startTime b"
      "endTime b \<le> gap_end (G ! k)" "endTime b + buf \<le> gap_start (gs ! k)"
    and pos: "startTime b < endTime b"
    by (auto simp: blockInv_def)
  from g(1) obtain m where m: "m < length G" "g = G ! m" by (auto simp: in_set_conv_nth)
  from g(2) m have "gap_start (G ! m) \<le> startTime b" "startTime b < gap_end (G ! m)"
    by (simp_all add: in_gap_def)
  moreover from k pos have "startTime b < gap_end (G ! k)" by simp
  ultimately have "m = k"
    using ord k(1,2) m(1) unfolding orderedGaps_def by (intro ordered_gaps_unique [of G m k "startTime b"])
  with m k show ?thesis by blast
qed

lemma loopInv_consume:
  assumes buf: "0 \<le> buf" and ord: "orderedGaps G" and inv: "loopInv buf G st"
    and i: "i < length (gaps st)" and len: "0 < len" "len \<le> duration (gaps st ! i)"
    and nb: "\<not> isLocked nb" "startTime nb = gap_start (gaps st ! i)" "endTime nb = startTime nb + len"
    and q: "\<forall>t\<in>set q. 0 < durationMinutes t"
  shows "loopInv buf G (st\<lparr>queue := q,
            gaps := (gaps st)[i := consume (len + buf) (gaps st ! i)],
            st_blocks := st_blocks st @ [nb]\<rparr>)"
proof -
  let ?gs = "gaps st" and ?gs' = "(gaps st)[i := consume (len + buf) (gaps st ! i)]"
  from buf len have c: "0 \<le> len + buf" by simp
  from inv have ginv: "gapsInv G ?gs"
    and binv: "\<forall>b\<in>set (floatingBlocks (st_blocks st)). blockInv buf G ?gs b"
    and sep: "sorted_wrt (separated buf G) (floatingBlocks (st_blocks st))"
    by (simp_all add: loopInv_def)
  from ginv i have iG: "i < length G" and gi: "gap_start (G ! i) \<le> gap_start (?gs ! i)"
      "gap_start (?gs ! i) + duration (?gs ! i) = gap_end (G ! i)"
    by (simp_all add: gapsInv_def)
  have g': "gapsInv G ?gs'" by (rule gapsInv_consume [OF ginv i c])
  have new: "blockInv buf G ?gs' nb"
    unfolding blockInv_def
  proof (intro conjI exI [of _ i])
    show "startTime nb < endTime nb" using nb len by simp
    show "i < length G" by (rule iG)
    show "gap_start (G ! i) \<le> startTime nb" using nb gi by simp
    show "endTime nb \<le> gap_end (G ! i)" using nb gi len by simp
    show "endTime nb + buf \<le> gap_start (?gs' ! i)" using nb i by (simp add: consume_def)
  qed
  have old: "\<forall>b\<in>set (floatingBlocks (st_blocks st)). blockInv buf G ?gs' b"
    using binv blockInv_consume [OF _ i c] by blast
  have nbG: "G ! i \<in> set G" using iG by simp
  have sepnew: "\<forall>b\<in>set (floatingBlocks (st_blocks st)). separated buf G b nb"
  proof
    fix b assume b: "b \<in> set (floatingBlocks (st_blocks st))"
    with binv have bi: "blockInv buf G ?gs b" by blast
    have nbi: "blockInv buf G ?gs' nb" by (rule new)
    show "separated buf G b nb"
      unfolding separated_def
    proof (intro ballI impI)
      fix g assume g: "g \<in> set G" and both: "in_gap g b \<and> in_gap g nb"
      from blockInv_in_gap [OF ord bi g] both obtain k where
        k: "k < length G" "g = G ! k" "endTime b + buf \<le> gap_start (?gs ! k)" by blast
      from blockInv_in_gap [OF ord nbi g] both obtain m where
        m: "m < length G" "g = G ! m" by blast
      have "in_gap (G ! i) nb" using nb gi len by (simp add: in_gap_def)
      moreover from both k have "in_gap (G ! k) nb" by simp
      ultimately have "k = i"
        using ord k(1) iG unfolding orderedGaps_def in_gap_def
        by (intro ordered_gaps_unique [of G k i "startTime nb"]) simp_all
      with k nb show "endTime b + buf \<le> startTime nb" by simp
    qed
  qed
  show ?thesis
    unfolding loopInv_def
    using g' q old new sep sepnew nb(1)
    by (simp add: floatingBlocks_def sorted_wrt_append)
qed

lemma loopInv_iteration:
  assumes buf: "0 \<le> bufferMinutes settings" and ord: "orderedGaps G"
    and inv: "loopInv (bufferMinutes settings) G st" and q: "queue st = task # rest"
  shows "loopInv (bufferMinutes settings) G (iteration settings task rest st)"
proof -
  from inv q have pos: "0 < durationMinutes task" and rest: "\<forall>t\<in>set rest. 0 < durationMinutes t"
    by (simp_all add: loopInv_def)
  show ?thesis
  proof (rule iteration_cases [where st=st and task=task and settings=settings and rest=rest])
    fix i assume fit: "firstFit (gaps st) (durationMinutes task) = Some i"
      and eq: "iteration settings task rest st =
         st\<lparr>queue := rest,
            gaps := (gaps st)[i := consume (durationMinutes task + bufferMinutes settings) (gaps st ! i)],
            st_blocks := st_blocks st @ [placedBlock task (gap_start (gaps st ! i))]\<rparr>"
    from firstFit_Some [OF fit] have i: "i < length (gaps st)"
      "durationMinutes task \<le> duration (gaps st ! i)" by simp_all
    show ?thesis
      unfolding eq
      by (rule loopInv_consume [OF buf ord inv i(1) pos i(2) _ _ _ rest])
        (simp_all add: placedBlock_def)
  next
    fix j
    let ?fit = "max 15 (duration (gaps st ! j) - bufferMinutes settings)"
    assume none: "firstFit (gaps st) (durationMinutes task) = None"
      and lg: "largestGap (gaps st) = Some j" and big: "15 \<le> duration (gaps st ! j)"
      and eq: "iteration settings task rest st =
         st\<lparr>queue := partB task (durationMinutes task - ?fit) # rest,
            gaps := (gaps st)[j := consume (?fit + bufferMinutes settings) (gaps st ! j)],
            st_blocks := st_blocks st @ [partABlock task (gap_start (gaps st ! j)) ?fit]\<rparr>"
    from largestGap_Some [OF lg] have j: "j < length (gaps st)" .
    then have "gaps st ! j \<in> set (gaps st)" by simp
    from firstFit_None [OF none this] have small: "duration (gaps st ! j) < durationMinutes task" .
    from big buf have fit: "0 < ?fit" "?fit \<le> duration (gaps st ! j)" by simp_all
    with small rest have q': "\<forall>t\<in>set (partB task (durationMinutes task - ?fit) # rest). 0 < durationMinutes t"
      by (simp add: partB_def)
    show ?thesis
      unfolding eq
      by (rule loopInv_consume [OF buf ord inv j fit _ _ _ q'])
        (simp_all add: partABlock_def)
  next
    assume "iteration settings task rest st = st\<lparr>queue := rest, rollover := rollover st @ [task]\<rparr>"
    with inv rest show ?thesis by (simp add: loopInv_def)
  qed
qed

lemma loopInv_fittingLoop:
  assumes "0 \<le> bufferMinutes settings" "orderedGaps G" "loopInv (bufferMinutes settings) G st"
  shows "loopInv (bufferMinutes settings) G (fittingLoop settings st)"
  using assms(3) loopInv_iteration [OF assms(1,2)]
  by (rule fittingLoop_invariant)

subsection \<open>What the loop adds to the outputs\<close>

lemma iteration_blocks:
  "\<exists>new. st_blocks (iteration settings task rest st) = st_blocks st @ new \<and>
     (\<forall>b\<in>set new. \<not> isLocked b \<and> taskId b = task_id task \<and>
        (block_id b = PlacedBlock (taskId b) \<or>
         block_id b = PartABlock (taskId b) \<and> 15 \<le> endTime b - startTime b))"
  by (rule iteration_cases [where st=st and task=task and settings=settings and rest=rest])
    (simp_all add: placedBlock_def partABlock_def)

lemma fittingLoop_blocks:
  "\<exists>new. st_blocks (fittingLoop settings st) = st_blocks st @ new \<and>
     (\<forall>b\<in>set new. \<not> isLocked b \<and>
        (block_id b = PlacedBlock (taskId b) \<or>
         block_id b = PartABlock (taskId b) \<and> 15 \<le> endTime b - startTime b))"
proof (rule fittingLoop_invariant [where P = "\<lambda>s::LoopState. \<exists>new. st_blocks s = st_blocks st @ new \<and>
     (\<forall>b\<in>set new. \<not> isLocked b \<and>
        (block_id b = PlacedBlock (taskId b) \<or>
         block_id b = PartABlock (taskId b) \<and> 15 \<le> endTime b - startTime b))"])
  show "\<exists>new. st_blocks st = st_blocks st @ new \<and>
     (\<forall>b\<in>set new. \<not> isLocked b \<and>
        (block_id b = PlacedBlock (taskId b) \<or>
         block_id b = PartABlock (taskId b) \<and> 15 \<le> endTime b - startTime b))"
    by simp
next
  fix s :: LoopState and task rest
  assume "\<exists>new. st_blocks s = st_blocks st @ new \<and>
     (\<forall>b\<in>set new. \<not> isLocked b \<and>
        (block_id b = PlacedBlock (taskId b) \<or>
         block_id b = PartABlock (taskId b) \<and> 15 \<le> endTime b - startTime b))"
  then obtain new where new: "st_blocks s = st_blocks st @ new"
     "\<forall>b\<in>set new. \<not> isLocked b \<and>
        (block_id b = PlacedBlock (taskId b) \<or>
         block_id b = PartABlock (taskId b) \<and> 15 \<le> endTime b - startTime b)" by blast
  from iteration_blocks [of settings task rest s] obtain more where
    more: "st_blocks (iteration settings task rest s) = st_blocks s @ more"
     "\<forall>b\<in>set more. \<not> isLocked b \<and>
        (block_id b = PlacedBlock (taskId b) \<or>
         block_id b = PartABlock (taskId b) \<and> 15 \<le> endTime b - startTime b)" by blast
  from new more have "st_blocks (iteration settings task rest s) = st_blocks st @ (new @ more) \<and>
     (\<forall>b\<in>set (new @ more). \<not> isLocked b \<and>
        (block_id b = PlacedBlock (taskId b) \<or>
         block_id b = PartABlock (taskId b) \<and> 15 \<le> endTime b - startTime b))"
    by auto
  then show "\<exists>new. st_blocks (iteration settings task rest s) = st_blocks st @ new \<and>
     (\<forall>b\<in>set new. \<not> isLocked b \<and>
        (block_id b = PlacedBlock (taskId b) \<or>
         block_id b = PartABlock (taskId b) \<and> 15 \<le> endTime b - startTime b))"
    by blast
qed

lemma fittingLoop_queue: "queue (fittingLoop settings st) = []"
  using fittingLoop_funpow [of st settings] by auto

subsection \<open>Minutes per task id\<close>

definition stateMinutes :: "string \<Rightarrow> LoopState \<Rightarrow> int" where
  "stateMinutes i st =
     blockMinutes i (st_blocks st) + taskMinutes i (rollover st) + taskMinutes i (queue st)"

lemma iteration_minutes:
  "stateMinutes i (iteration settings task rest st) = stateMinutes i (st\<lparr>queue := task # rest\<rparr>)"
  by (rule iteration_cases [where st=st and task=task and settings=settings and rest=rest])
    (simp_all add: stateMinutes_def taskMinutes_def blockMinutes_def placedBlock_def
      partABlock_def partB_def)

lemma fittingLoop_minutes: "stateMinutes i (fittingLoop settings st) = stateMinutes i st"
proof (rule fittingLoop_invariant [where P = "\<lambda>s::LoopState. stateMinutes i s = stateMinutes i st"])
  show "stateMinutes i st = stateMinutes i st" by simp
next
  fix s :: LoopState and task rest
  assume a: "stateMinutes i s = stateMinutes i st" "queue s = task # rest"
  from a(2) have "s\<lparr>queue := task # rest\<rparr> = s" by simp
  with iteration_minutes [of i settings task rest s] a(1)
  show "stateMinutes i (iteration settings task rest s) = stateMinutes i st"
    by (simp only:)
qed

lemma iteration_rollover:
  "rollover (iteration settings task rest st) = rollover st \<or>
   rollover (iteration settings task rest st) = rollover st @ [task]"
  by (rule iteration_cases [where st=st and task=task and settings=settings and rest=rest])
    simp_all

lemma iteration_queue_type:
  "queue (iteration settings task rest st) = rest \<or>
   (\<exists>remainder. queue (iteration settings task rest st) = remainder # rest \<and>
       task_type remainder = task_type task)"
  by (rule iteration_cases [where st=st and task=task and settings=settings and rest=rest])
    (simp_all add: partB_def)

lemma fittingLoop_rollover_type:
  assumes "\<forall>t\<in>set (queue st) \<union> set (rollover st). task_type t = FLOATING"
  shows "\<forall>t\<in>set (rollover (fittingLoop settings st)). task_type t = FLOATING"
proof -
  have "\<forall>t\<in>set (queue (fittingLoop settings st)) \<union> set (rollover (fittingLoop settings st)).
          task_type t = FLOATING"
  proof (rule fittingLoop_invariant [where P = "\<lambda>s::LoopState. \<forall>t\<in>set (queue s) \<union> set (rollover s).
          task_type t = FLOATING"])
    show "\<forall>t\<in>set (queue st) \<union> set (rollover st). task_type t = FLOATING" by (rule assms)
  next
    fix s :: LoopState and task rest
    assume a: "\<forall>t\<in>set (queue s) \<union> set (rollover s). task_type t = FLOATING"
      and q: "queue s = task # rest"
    from a q have task: "task_type task = FLOATING" and rest: "\<forall>t\<in>set rest. task_type t = FLOATING"
      and roll: "\<forall>t\<in>set (rollover s). task_type t = FLOATING" by simp_all
    from iteration_queue_type [of settings task rest s] task rest
    have 1: "\<forall>t\<in>set (queue (iteration settings task rest s)). task_type t = FLOATING"
      by auto
    from iteration_rollover [of settings task rest s] task roll
    have 2: "\<forall>t\<in>set (rollover (iteration settings task rest s)). task_type t = FLOATING"
      by auto
    from 1 2 show "\<forall>t\<in>set (queue (iteration settings task rest s))
        \<union> set (rollover (iteration settings task rest s)). task_type t = FLOATING"
      by blast
  qed
  then show ?thesis by simp
qed

subsection \<open>Every queued task stays represented\<close>

definition represented :: "string \<Rightarrow> LoopState \<Rightarrow> bool" where
  "represented i st =
     ((\<exists>b\<in>set (st_blocks st). \<not> isLocked b \<and> taskId b = i) \<or>
      (\<exists>t\<in>set (rollover st). task_id t = i) \<or> (\<exists>t\<in>set (queue st). task_id t = i))"

lemma iteration_head_represented:
  "represented (task_id task) (iteration settings task rest st)"
  by (rule iteration_cases [where st=st and task=task and settings=settings and rest=rest])
    (simp_all add: represented_def placedBlock_def partABlock_def)

lemma iteration_grows:
  "set (st_blocks st) \<subseteq> set (st_blocks (iteration settings task rest st)) \<and>
   set (rollover st) \<subseteq> set (rollover (iteration settings task rest st)) \<and>
   set rest \<subseteq> set (queue (iteration settings task rest st))"
  by (rule iteration_cases [where st=st and task=task and settings=settings and rest=rest])
    (simp_all add: subset_insertI2)

lemma iteration_represented:
  assumes r: "represented i st" and q: "queue st = task # rest"
  shows "represented i (iteration settings task rest st)"
proof -
  let ?st' = "iteration settings task rest st"
  note g = iteration_grows [of st settings task rest]
  from r consider (block) b where "b \<in> set (st_blocks st)" "\<not> isLocked b" "taskId b = i"
    | (roll) t where "t \<in> set (rollover st)" "task_id t = i"
    | (head) "task_id task = i"
    | (tail) t where "t \<in> set rest" "task_id t = i"
    using q by (auto simp: represented_def)
  then show ?thesis
  proof cases
    case block
    with g have "b \<in> set (st_blocks ?st')" by blast
    with block show ?thesis unfolding represented_def by blast
  next
    case roll
    with g have "t \<in> set (rollover ?st')" by blast
    with roll show ?thesis unfolding represented_def by blast
  next
    case head
    with iteration_head_represented [of task settings rest st] show ?thesis by simp
  next
    case tail
    with g have "t \<in> set (queue ?st')" by blast
    with tail show ?thesis unfolding represented_def by blast
  qed
qed

lemma fittingLoop_represented:
  assumes "represented i st"
  shows "(\<exists>b\<in>set (st_blocks (fittingLoop settings st)). \<not> isLocked b \<and> taskId b = i) \<or>
      (\<exists>t\<in>set (rollover (fittingLoop settings st)). task_id t = i)"
proof -
  have "represented i (fittingLoop settings st)"
    using assms iteration_represented by (rule fittingLoop_invariant)
  then show ?thesis by (simp add: represented_def fittingLoop_queue)
qed

section \<open>The pass over the fixed tasks and the stages of a run\<close>

lemma validStart_cases:
  assumes "validStart t"
  obtains (skipped) "fixedStartTime t = None \<or> fixedStartTime t = Some []"
  | (clock) time n where "fixedStartTime t = Some time" "time \<noteq> []"
      "timeToMinutes time = Some (Num n)" "0 \<le> n" "n < 1440"
  using assms
  by (auto simp: validStart_def split: option.splits jsnum.splits)

lemma fixedPass_skip:
  "fixedStartTime task = None \<or> fixedStartTime task = Some [] \<Longrightarrow>
   fixedPass settings (task # rest) = fixedPass settings rest"
  by auto

lemma fixedPass_clock:
  "fixedStartTime task = Some time \<Longrightarrow> time \<noteq> [] \<Longrightarrow> timeToMinutes time = Some (Num n) \<Longrightarrow>
   fixedPass settings (task # rest) =
     (case fixedPass settings rest of None \<Rightarrow> None
      | Some (bs, occ) \<Rightarrow>
          Some (lockedBlock task n # bs, occupiedRange settings task n # occ))"
  by simp

lemma fixedPass_fails:
  "fixedStartTime task = Some time \<Longrightarrow> time \<noteq> [] \<Longrightarrow>
   (\<And>n. timeToMinutes time \<noteq> Some (Num n)) \<Longrightarrow> fixedPass settings (task # rest) = None"
  by (auto split: option.splits jsnum.splits)

text \<open>
  What a successful pass returns: one locked block and one occupied range for every
  task with a start time, in the order of the tasks.
\<close>

definition fixedEntry :: "UserSettings \<Rightarrow> Task \<Rightarrow> ScheduleBlock \<Rightarrow> Interval \<Rightarrow> bool" where
  "fixedEntry settings t b occ =
     (\<exists>time. fixedStartTime t = Some time \<and> time \<noteq> [] \<and>
        timeToMinutes time = Some (Num (startTime b)) \<and>
        b = lockedBlock t (startTime b) \<and> occ = occupiedRange settings t (startTime b))"

lemma fixedPass_Some:
  "fixedPass settings ts = Some (bs, occ) \<Longrightarrow>
   length bs = length occ \<and>
   (\<forall>k<length bs. \<exists>t\<in>set ts. fixedEntry settings t (bs ! k) (occ ! k)) \<and>
   (\<forall>t\<in>set ts. \<forall>time. fixedStartTime t = Some time \<and> time \<noteq> [] \<longrightarrow>
       (\<exists>k<length bs. fixedEntry settings t (bs ! k) (occ ! k)))"
proof (induction ts arbitrary: bs occ)
  case Nil
  then show ?case by simp
next
  case (Cons task rest)
  show ?case
  proof (cases "fixedStartTime task = None \<or> fixedStartTime task = Some []")
    case True
    with Cons.prems have "fixedPass settings rest = Some (bs, occ)"
      by (simp only: fixedPass_skip)
    from Cons.IH [OF this] True show ?thesis by auto
  next
    case False
    then obtain time where time: "fixedStartTime task = Some time" "time \<noteq> []" by auto
    show ?thesis
    proof (cases "\<exists>n. timeToMinutes time = Some (Num n)")
      case False
      with fixedPass_fails [OF time, of settings rest] Cons.prems show ?thesis by simp
    next
      case True
      then obtain n where n: "timeToMinutes time = Some (Num n)" by blast
      from Cons.prems fixedPass_clock [OF time n, of settings rest]
      obtain bs' occ' where rest: "fixedPass settings rest = Some (bs', occ')"
        and bs: "bs = lockedBlock task n # bs'" and occ: "occ = occupiedRange settings task n # occ'"
        by (auto split: option.splits)
      have entry: "fixedEntry settings task (lockedBlock task n) (occupiedRange settings task n)"
        using time n by (simp add: fixedEntry_def lockedBlock_def)
      note IH = Cons.IH [OF rest]
      have 1: "length bs = length occ" using IH bs occ by simp
      have 2: "\<forall>k<length bs. \<exists>t\<in>set (task # rest). fixedEntry settings t (bs ! k) (occ ! k)"
      proof (intro allI impI)
        fix k assume "k < length bs"
        then show "\<exists>t\<in>set (task # rest). fixedEntry settings t (bs ! k) (occ ! k)"
          using IH entry bs occ by (cases k) auto
      qed
      have 3: "\<forall>t\<in>set (task # rest). \<forall>time. fixedStartTime t = Some time \<and> time \<noteq> [] \<longrightarrow>
         (\<exists>k<length bs. fixedEntry settings t (bs ! k) (occ ! k))"
      proof (intro ballI allI impI)
        fix t time' assume t: "t \<in> set (task # rest)" "fixedStartTime t = Some time' \<and> time' \<noteq> []"
        show "\<exists>k<length bs. fixedEntry settings t (bs ! k) (occ ! k)"
        proof (cases "t = task")
          case True
          with entry bs occ have "0 < length bs \<and> fixedEntry settings t (bs ! 0) (occ ! 0)" by simp
          then show ?thesis by blast
        next
          case False
          with t IH obtain k where "k < length bs'" "fixedEntry settings t (bs' ! k) (occ' ! k)"
            by auto
          then have "Suc k < length bs \<and> fixedEntry settings t (bs ! Suc k) (occ ! Suc k)"
            using bs occ by simp
          then show ?thesis by blast
        qed
      qed
      from 1 2 3 show ?thesis by blast
    qed
  qed
qed

lemma fixedPass_total:
  "\<forall>t\<in>set ts. validStart t \<Longrightarrow> \<exists>bs occ. fixedPass settings ts = Some (bs, occ)"
proof (induction ts)
  case Nil
  then show ?case by simp
next
  case (Cons task rest)
  then obtain bs occ where rest: "fixedPass settings rest = Some (bs, occ)" by auto
  from Cons.prems have "validStart task" by simp
  then show ?case
  proof (cases rule: validStart_cases)
    case skipped
    with rest show ?thesis by (simp only: fixedPass_skip) blast
  next
    case (clock time n)
    with rest show ?thesis by (simp add: fixedPass_clock [OF clock(1-3)])
  qed
qed

subsection \<open>The stages of a run\<close>

lemma window_minutes:
  "timeToMinutes ''06:00'' = Some (Num 360)" "timeToMinutes ''23:00'' = Some (Num 1380)"
  by code_simp+

lemma rescheduleDay_run:
  "rescheduleDay tasks settings =
     (case fixedPass settings (fixedTasks tasks) of
        None \<Rightarrow> None
      | Some (bs, occ) \<Rightarrow>
          Some \<lparr>blocks = st_blocks (fittingLoop settings
                   \<lparr>queue = floatingTasks tasks, gaps = initialGaps occ 360 1380,
                    st_blocks = bs, rollover = []\<rparr>),
                rolloverTasks = rollover (fittingLoop settings
                   \<lparr>queue = floatingTasks tasks, gaps = initialGaps occ 360 1380,
                    st_blocks = bs, rollover = []\<rparr>)\<rparr>)"
  by (simp add: rescheduleDay_def window_minutes Let_def split: option.splits)

lemma wellFormed_fixed:
  assumes "wellFormed tasks settings"
  shows "\<forall>t\<in>set (fixedTasks tasks). validStart t"
  using assms by (auto simp: wellFormed_def fixedTasks_def)

text \<open>The blocks and ranges of the fixed tasks, for well-formed input.\<close>

lemma fixed_entry_facts:
  assumes wf: "wellFormed tasks settings"
    and pass: "fixedPass settings (fixedTasks tasks) = Some (bs, occ)"
    and k: "k < length bs"
  shows "isLocked (bs ! k)" "0 \<le> startTime (bs ! k)" "startTime (bs ! k) < 1440"
    "startTime (bs ! k) < endTime (bs ! k)"
    "occ_start (occ ! k) = max 0 (startTime (bs ! k) - bufferMinutes settings)"
    "occ_end (occ ! k) = min 1440 (endTime (bs ! k) + bufferMinutes settings)"
    "k < length occ"
proof -
  from fixedPass_Some [OF pass] k obtain t where t: "t \<in> set (fixedTasks tasks)"
    "fixedEntry settings t (bs ! k) (occ ! k)" and len: "length bs = length occ" by blast
  from t(2) obtain time where e: "fixedStartTime t = Some time" "time \<noteq> []"
    "timeToMinutes time = Some (Num (startTime (bs ! k)))"
    "bs ! k = lockedBlock t (startTime (bs ! k))"
    "occ ! k = occupiedRange settings t (startTime (bs ! k))"
    by (auto simp: fixedEntry_def)
  from t(1) wf have d: "0 < durationMinutes t" and v: "validStart t"
    by (auto simp: wellFormed_def fixedTasks_def)
  from v e(1-3) have r: "0 \<le> startTime (bs ! k)" "startTime (bs ! k) < 1440"
    by (simp_all add: validStart_def)
  from e(4) have "isLocked (bs ! k) = isLocked (lockedBlock t (startTime (bs ! k)))"
    "endTime (bs ! k) = endTime (lockedBlock t (startTime (bs ! k)))" by simp_all
  then have l: "isLocked (bs ! k)" "endTime (bs ! k) = startTime (bs ! k) + durationMinutes t"
    by (simp_all add: lockedBlock_def)
  show "isLocked (bs ! k)" by (rule l(1))
  show "0 \<le> startTime (bs ! k)" "startTime (bs ! k) < 1440" by (rule r)+
  show "startTime (bs ! k) < endTime (bs ! k)" using l(2) d by simp
  show "occ_start (occ ! k) = max 0 (startTime (bs ! k) - bufferMinutes settings)"
    by (subst e(5)) (simp add: occupiedRange_def)
  show "occ_end (occ ! k) = min 1440 (endTime (bs ! k) + bufferMinutes settings)"
    by (subst e(5)) (simp add: occupiedRange_def l(2))
  show "k < length occ" using k len by simp
qed

lemma fixed_all_locked:
  assumes "wellFormed tasks settings" "fixedPass settings (fixedTasks tasks) = Some (bs, occ)"
  shows "\<forall>b\<in>set bs. isLocked b"
  using fixed_entry_facts(1) [OF assms] by (auto simp: in_set_conv_nth)

lemma occupied_facts:
  assumes wf: "wellFormed tasks settings"
    and pass: "fixedPass settings (fixedTasks tasks) = Some (bs, occ)"
    and x: "x \<in> set occ"
  shows "occ_start x \<le> occ_end x" "occ_start x < 1440"
    "\<exists>b\<in>set bs. occ_start x = max 0 (startTime b - bufferMinutes settings)"
proof -
  from fixedPass_Some [OF pass] have len: "length bs = length occ" by blast
  from x obtain k where k: "k < length occ" "x = occ ! k" by (auto simp: in_set_conv_nth)
  with len have kb: "k < length bs" by simp
  note f = fixed_entry_facts [OF wf pass kb]
  from wf have buf: "0 \<le> bufferMinutes settings" by (simp add: wellFormed_def)
  from f(2-6) buf k(2) show "occ_start x \<le> occ_end x" "occ_start x < 1440" by simp_all
  from kb have "bs ! k \<in> set bs" by simp
  with f(5) k(2) show "\<exists>b\<in>set bs. occ_start x = max 0 (startTime b - bufferMinutes settings)"
    by blast
qed

text \<open>The initial gaps, for well-formed input.\<close>

lemma initialGaps_facts:
  assumes wf: "wellFormed tasks settings"
    and pass: "fixedPass settings (fixedTasks tasks) = Some (bs, occ)"
  shows "orderedGaps (initialGaps occ 360 1380)"
    and "gapsInv (initialGaps occ 360 1380) (initialGaps occ 360 1380)"
    and "\<forall>g\<in>set (initialGaps occ 360 1380). 360 \<le> gap_start g \<and>
           (gap_end g = 1380 \<or> gap_end g \<in> occ_start ` set occ)"
    and "\<forall>g\<in>set (initialGaps occ 360 1380). \<forall>x\<in>set occ.
           gap_end g \<le> occ_start x \<or> occ_end x \<le> gap_start g"
proof -
  let ?S = "js_sort (\<lambda>a b. occ_start a - occ_start b) occ"
  let ?M = "mergeOccupied ?S"
  let ?G = "initialGaps occ 360 1380"
  have G: "?G = findGaps 360 1380 ?M" by (simp add: initialGaps_def)
  have S: "sorted (map occ_start ?S)" by (rule sorted_occupied)
  have setS: "set ?S = set occ" by (rule set_js_sort)
  have properS: "\<forall>x\<in>set ?S. occ_start x \<le> occ_end x"
    using occupied_facts(1) [OF wf pass] setS by simp
  have M: "sorted (map occ_start ?M)" by (rule mergeOccupied_sorted [OF S])
  have properM: "\<forall>m\<in>set ?M. occ_start m \<le> occ_end m" by (rule mergeOccupied_proper [OF properS])
  show "orderedGaps ?G"
    unfolding orderedGaps_def G by (rule findGaps_ordered [OF properM])
  show "gapsInv ?G ?G"
    unfolding gapsInv_def
  proof (intro conjI allI impI)
    fix i assume "i < length ?G"
    then have "?G ! i \<in> set (findGaps 360 1380 ?M)" unfolding G by simp
    from findGaps_shape [OF this]
    show "gap_start (?G ! i) + duration (?G ! i) = gap_end (?G ! i)" by simp
  qed simp_all
  show "\<forall>g\<in>set ?G. 360 \<le> gap_start g \<and> (gap_end g = 1380 \<or> gap_end g \<in> occ_start ` set occ)"
  proof
    fix g assume g: "g \<in> set ?G"
    then have g': "g \<in> set (findGaps 360 1380 ?M)" by (simp only: G)
    from findGaps_end [OF g'] have "gap_end g = 1380 \<or> gap_end g \<in> occ_start ` set occ"
      using mergeOccupied_starts [of _ ?S] setS by auto
    with findGaps_shape [OF g']
    show "360 \<le> gap_start g \<and> (gap_end g = 1380 \<or> gap_end g \<in> occ_start ` set occ)" by simp
  qed
  show "\<forall>g\<in>set ?G. \<forall>x\<in>set occ. gap_end g \<le> occ_start x \<or> occ_end x \<le> gap_start g"
  proof (intro ballI)
    fix g x assume g: "g \<in> set ?G" and x: "x \<in> set occ"
    then have g': "g \<in> set (findGaps 360 1380 ?M)" by (simp only: G)
    from x setS have "x \<in> set ?S" by simp
    from mergeOccupied_covers [OF S this] obtain m where
      m: "m \<in> set ?M" "occ_start m \<le> occ_start x" "occ_end x \<le> occ_end m" by blast
    from findGaps_avoids [OF M g' m(1)] m(2,3)
    show "gap_end g \<le> occ_start x \<or> occ_end x \<le> gap_start g" by auto
  qed
qed

lemma floatingBlocks_append_locked:
  assumes "\<forall>b\<in>set bs. isLocked b" "\<forall>b\<in>set new. \<not> isLocked b"
  shows "floatingBlocks (bs @ new) = new"
  using assms by (simp add: floatingBlocks_def filter_id_conv filter_empty_conv)

text \<open>The loop on well-formed input: what it appends, and the invariant at its end.\<close>

lemma run_loop:
  assumes wf: "wellFormed tasks settings"
    and pass: "fixedPass settings (fixedTasks tasks) = Some (bs, occ)"
  obtains new gs where
    "st_blocks (fittingLoop settings \<lparr>queue = floatingTasks tasks, gaps = initialGaps occ 360 1380,
        st_blocks = bs, rollover = []\<rparr>) = bs @ new"
    "\<forall>b\<in>set new. \<not> isLocked b"
    "\<forall>b\<in>set new. blockInv (bufferMinutes settings) (initialGaps occ 360 1380) gs b"
    "sorted_wrt (separated (bufferMinutes settings) (initialGaps occ 360 1380)) new"
proof -
  let ?G = "initialGaps occ 360 1380"
  let ?st = "\<lparr>queue = floatingTasks tasks, gaps = ?G, st_blocks = bs, rollover = []\<rparr>"
  let ?F = "fittingLoop settings ?st"
  from wf have buf: "0 \<le> bufferMinutes settings" by (simp add: wellFormed_def)
  note G = initialGaps_facts [OF wf pass]
  note locked = fixed_all_locked [OF wf pass]
  have q: "\<forall>t\<in>set (floatingTasks tasks). 0 < durationMinutes t"
    using wf by (auto simp: floatingTasks_def set_js_sort wellFormed_def)
  have fl: "floatingBlocks bs = []"
    using locked by (simp add: floatingBlocks_def filter_empty_conv)
  have "loopInv (bufferMinutes settings) ?G ?st"
    using G(2) q fl by (simp add: loopInv_def)
  from loopInv_fittingLoop [OF buf G(1) this]
  have inv: "loopInv (bufferMinutes settings) ?G ?F" .
  from fittingLoop_blocks [of settings ?st] obtain new where
    new: "st_blocks ?F = bs @ new" "\<forall>b\<in>set new. \<not> isLocked b" by auto
  from floatingBlocks_append_locked [OF locked new(2)] new(1)
  have "floatingBlocks (st_blocks ?F) = new" by simp
  with inv have "\<forall>b\<in>set new. blockInv (bufferMinutes settings) ?G (gaps ?F) b"
    "sorted_wrt (separated (bufferMinutes settings) ?G) new"
    by (simp_all add: loopInv_def)
  with new show ?thesis by (rule that)
qed

lemma blockInv_gap:
  assumes "blockInv buf G gs b"
  obtains g where "g \<in> set G" "gap_start g \<le> startTime b" "startTime b < endTime b"
    "endTime b \<le> gap_end g" "in_gap g b"
proof -
  from assms obtain i where i: "i < length G" "gap_start (G ! i) \<le> startTime b"
      "endTime b \<le> gap_end (G ! i)" and pos: "startTime b < endTime b"
    by (auto simp: blockInv_def)
  from i(1) have "G ! i \<in> set G" by simp
  moreover from i pos have "in_gap (G ! i) b" by (simp add: in_gap_def)
  ultimately show ?thesis using i pos by (intro that [of "G ! i"])
qed

lemma ordered_gaps_apart:
  assumes "orderedGaps G" "g \<in> set G" "h \<in> set G" "g \<noteq> h"
  shows "gap_end g \<le> gap_start h \<or> gap_end h \<le> gap_start g"
proof -
  from assms(2,3) obtain i j where ij: "i < length G" "g = G ! i" "j < length G" "h = G ! j"
    by (auto simp: in_set_conv_nth)
  with assms(4) have "i \<noteq> j" by auto
  then consider "i < j" | "j < i" by arith
  then show ?thesis
  proof cases
    case 1
    from sorted_wrt_nth_less [OF assms(1) [unfolded orderedGaps_def] 1 ij(3)] ij show ?thesis by simp
  next
    case 2
    from sorted_wrt_nth_less [OF assms(1) [unfolded orderedGaps_def] 2 ij(1)] ij show ?thesis by simp
  qed
qed

lemma floating_disjoint:
  assumes ord: "orderedGaps G" and buf: "0 \<le> buf"
    and a: "blockInv buf G gs a" and b: "blockInv buf G gs b" and sep: "separated buf G a b"
  shows "\<not> overlaps a b"
proof -
  from a obtain g where g: "g \<in> set G" "gap_start g \<le> startTime a" "startTime a < endTime a"
    "endTime a \<le> gap_end g" "in_gap g a" by (rule blockInv_gap)
  from b obtain h where h: "h \<in> set G" "gap_start h \<le> startTime b" "startTime b < endTime b"
    "endTime b \<le> gap_end h" "in_gap h b" by (rule blockInv_gap)
  show ?thesis
  proof (cases "g = h")
    case True
    with sep g(1,5) h(5) have "endTime a + buf \<le> startTime b" by (auto simp: separated_def)
    with buf show ?thesis by (simp add: overlaps_def)
  next
    case False
    from ordered_gaps_apart [OF ord g(1) h(1) False] g h show ?thesis
      by (auto simp: overlaps_def)
  qed
qed

lemma fixed_floating_disjoint:
  assumes wf: "wellFormed tasks settings"
    and pass: "fixedPass settings (fixedTasks tasks) = Some (bs, occ)"
    and l: "l \<in> set bs"
    and f: "blockInv (bufferMinutes settings) (initialGaps occ 360 1380) gs f"
  shows "\<not> overlaps l f"
proof -
  let ?buf = "bufferMinutes settings"
  from wf have buf: "0 \<le> ?buf" by (simp add: wellFormed_def)
  note G = initialGaps_facts [OF wf pass]
  from f obtain g where g: "g \<in> set (initialGaps occ 360 1380)" "gap_start g \<le> startTime f"
    "startTime f < endTime f" "endTime f \<le> gap_end g" by (rule blockInv_gap)
  from l obtain k where k: "k < length bs" "l = bs ! k" by (auto simp: in_set_conv_nth)
  note e = fixed_entry_facts [OF wf pass k(1)]
  from e(7) have x: "occ ! k \<in> set occ" by simp
  from G(3) g(1) have lo: "360 \<le> gap_start g"
    and hi: "gap_end g = 1380 \<or> gap_end g \<in> occ_start ` set occ" by auto
  from hi occupied_facts(2) [OF wf pass] have top: "gap_end g < 1440" by auto
  from G(4) g(1) x consider "gap_end g \<le> occ_start (occ ! k)" | "occ_end (occ ! k) \<le> gap_start g"
    by blast
  then show ?thesis
  proof cases
    case 1
    with e(5) g(2-4) lo buf have "endTime f \<le> startTime (bs ! k)" by arith
    with k(2) show ?thesis by (simp add: overlaps_def)
  next
    case 2
    with e(6) g(2-4) top buf have "endTime (bs ! k) \<le> startTime f" by arith
    with k(2) show ?thesis by (simp add: overlaps_def)
  qed
qed

lemma wellFormed_run:
  assumes wf: "wellFormed tasks settings"
  obtains bs occ where "fixedPass settings (fixedTasks tasks) = Some (bs, occ)"
    "rescheduleDay tasks settings =
       Some \<lparr>blocks = st_blocks (fittingLoop settings
                   \<lparr>queue = floatingTasks tasks, gaps = initialGaps occ 360 1380,
                    st_blocks = bs, rollover = []\<rparr>),
             rolloverTasks = rollover (fittingLoop settings
                   \<lparr>queue = floatingTasks tasks, gaps = initialGaps occ 360 1380,
                    st_blocks = bs, rollover = []\<rparr>)\<rparr>"
proof -
  from fixedPass_total [OF wellFormed_fixed [OF wf], of settings]
  obtain bs occ where pass: "fixedPass settings (fixedTasks tasks) = Some (bs, occ)" by blast
  then show ?thesis by (intro that [of bs occ]) (simp_all add: rescheduleDay_run)
qed

text \<open>Reading a result off an evaluated run.\<close>

lemma run_value:
  assumes "map_option f (rescheduleDay tasks settings) = Some v"
  obtains r where "rescheduleDay tasks settings = Some r" "f r = v"
  using assms by (cases "rescheduleDay tasks settings") auto

lemma blockTimes_nth:
  assumes "map blockTimes bs = ts" "k < length ts"
  shows "taskId (bs ! k) = fst (ts ! k)" "isLocked (bs ! k) = fst (snd (ts ! k))"
    "startTime (bs ! k) = fst (snd (snd (ts ! k)))" "endTime (bs ! k) = snd (snd (snd (ts ! k)))"
proof -
  from assms have "ts ! k = blockTimes (bs ! k)" by auto
  then show "taskId (bs ! k) = fst (ts ! k)" "isLocked (bs ! k) = fst (snd (ts ! k))"
    "startTime (bs ! k) = fst (snd (snd (ts ! k)))" "endTime (bs ! k) = snd (snd (snd (ts ! k)))"
    by (simp_all add: blockTimes_def)
qed

subsection \<open>Facts that need no well-formedness\<close>

lemma fixedPass_locked:
  assumes "fixedPass settings ts = Some (bs, occ)" "b \<in> set bs"
  shows "isLocked b" "block_id b = FixedBlock (taskId b)"
proof -
  from assms(2) obtain k where k: "k < length bs" "b = bs ! k" by (auto simp: in_set_conv_nth)
  with fixedPass_Some [OF assms(1)] obtain t where "fixedEntry settings t b (occ ! k)" by blast
  then have "b = lockedBlock t (startTime b)" by (auto simp: fixedEntry_def)
  then have "isLocked b = isLocked (lockedBlock t (startTime b))"
    "block_id b = block_id (lockedBlock t (startTime b))" "taskId b = taskId (lockedBlock t (startTime b))"
    by simp_all
  then show "isLocked b" "block_id b = FixedBlock (taskId b)" by (simp_all add: lockedBlock_def)
qed

lemma rescheduleDay_Some:
  assumes "rescheduleDay tasks settings = Some r"
  obtains bs occ where "fixedPass settings (fixedTasks tasks) = Some (bs, occ)"
    "blocks r = st_blocks (fittingLoop settings
        \<lparr>queue = floatingTasks tasks, gaps = initialGaps occ 360 1380, st_blocks = bs, rollover = []\<rparr>)"
    "rolloverTasks r = rollover (fittingLoop settings
        \<lparr>queue = floatingTasks tasks, gaps = initialGaps occ 360 1380, st_blocks = bs, rollover = []\<rparr>)"
proof (cases "fixedPass settings (fixedTasks tasks)")
  case None
  with assms show ?thesis by (simp add: rescheduleDay_run)
next
  case (Some p)
  obtain bs occ where p: "p = (bs, occ)" by (cases p)
  with Some assms have "r = \<lparr>blocks = st_blocks (fittingLoop settings
        \<lparr>queue = floatingTasks tasks, gaps = initialGaps occ 360 1380, st_blocks = bs, rollover = []\<rparr>),
      rolloverTasks = rollover (fittingLoop settings
        \<lparr>queue = floatingTasks tasks, gaps = initialGaps occ 360 1380, st_blocks = bs, rollover = []\<rparr>)\<rparr>"
    by (simp add: rescheduleDay_run)
  then have "blocks r = st_blocks (fittingLoop settings
        \<lparr>queue = floatingTasks tasks, gaps = initialGaps occ 360 1380, st_blocks = bs, rollover = []\<rparr>)"
    "rolloverTasks r = rollover (fittingLoop settings
        \<lparr>queue = floatingTasks tasks, gaps = initialGaps occ 360 1380, st_blocks = bs, rollover = []\<rparr>)"
    by simp_all
  with Some p show ?thesis by (intro that [of bs occ]) simp_all
qed

lemma floatingTasks_set:
  "set (floatingTasks tasks) = {t \<in> set tasks. task_type t = FLOATING \<and> status t \<noteq> COMPLETED}"
  by (simp add: floatingTasks_def set_js_sort)

lemma taskMinutes_floatingTasks:
  "taskMinutes i (floatingTasks tasks)
     = taskMinutes i (filter (\<lambda>t. task_type t = FLOATING \<and> status t \<noteq> COMPLETED) tasks)"
  by (simp add: floatingTasks_def taskMinutes_def sum_list_js_sort)

lemma blockMinutes_locked: "\<forall>b\<in>set bs. isLocked b \<Longrightarrow> blockMinutes i bs = 0"
  by (induction bs) (simp_all add: blockMinutes_def)

lemma run_minutes:
  assumes "fixedPass settings (fixedTasks tasks) = Some (bs, occ)"
  shows "blockMinutes i (st_blocks (fittingLoop settings
        \<lparr>queue = floatingTasks tasks, gaps = G, st_blocks = bs, rollover = []\<rparr>))
     + taskMinutes i (rollover (fittingLoop settings
        \<lparr>queue = floatingTasks tasks, gaps = G, st_blocks = bs, rollover = []\<rparr>))
     = taskMinutes i (filter (\<lambda>t. task_type t = FLOATING \<and> status t \<noteq> COMPLETED) tasks)"
proof -
  let ?st = "\<lparr>queue = floatingTasks tasks, gaps = G, st_blocks = bs, rollover = []\<rparr>"
  have "blockMinutes i bs = 0"
    using fixedPass_locked(1) [OF assms] by (intro blockMinutes_locked) simp
  then have "stateMinutes i ?st = taskMinutes i (floatingTasks tasks)"
    by (simp add: stateMinutes_def taskMinutes_def)
  moreover have "stateMinutes i (fittingLoop settings ?st)
      = blockMinutes i (st_blocks (fittingLoop settings ?st))
        + taskMinutes i (rollover (fittingLoop settings ?st))"
    by (simp add: stateMinutes_def fittingLoop_queue taskMinutes_def)
  ultimately show ?thesis
    using fittingLoop_minutes [of i settings ?st] by (simp only: taskMinutes_floatingTasks)
qed

lemma member_le_sum_list_int:
  fixes f :: "'a \<Rightarrow> int"
  assumes "\<forall>y\<in>set xs. 0 \<le> f y" "x \<in> set xs"
  shows "f x \<le> sum_list (map f xs)"
  using assms
proof (induction xs)
  case Nil
  then show ?case by simp
next
  case (Cons y ys)
  from Cons.prems(1) have nn: "0 \<le> sum_list (map f ys)" by (intro sum_list_nonneg) auto
  show ?case
  proof (cases "x = y")
    case True
    with nn show ?thesis by simp
  next
    case False
    with Cons.prems have "x \<in> set ys" "\<forall>y\<in>set ys. 0 \<le> f y" by simp_all
    from Cons.IH [OF this(2,1)] Cons.prems(1) show ?thesis by simp
  qed
qed

lemma taskMinutes_member:
  assumes "\<forall>t\<in>set ts. 0 < durationMinutes t" "x \<in> set ts"
  shows "durationMinutes x \<le> taskMinutes (task_id x) ts"
proof -
  let ?f = "\<lambda>t. if task_id t = task_id x then durationMinutes t else 0"
  from assms(1) have "\<forall>t\<in>set ts. 0 \<le> ?f t" by auto
  from member_le_sum_list_int [OF this assms(2)] show ?thesis by (simp add: taskMinutes_def)
qed

lemma blockMinutes_member:
  assumes "\<forall>b\<in>set bs. \<not> isLocked b \<longrightarrow> startTime b < endTime b" "x \<in> set bs" "\<not> isLocked x"
  shows "endTime x - startTime x \<le> blockMinutes (taskId x) bs"
proof -
  let ?f = "\<lambda>b. if \<not> isLocked b \<and> taskId b = taskId x then endTime b - startTime b else 0"
  from assms(1) have "\<forall>b\<in>set bs. 0 \<le> ?f b" by auto
  from member_le_sum_list_int [OF this assms(2)] assms(3) show ?thesis
    by (simp add: blockMinutes_def)
qed

lemma taskMinutes_distinct:
  assumes "distinct (map task_id ts)" "x \<in> set ts"
  shows "taskMinutes (task_id x) ts = durationMinutes x"
  using assms
proof (induction ts)
  case Nil
  then show ?case by simp
next
  case (Cons y ys)
  show ?case
  proof (cases "x = y")
    case True
    from Cons.prems(1) have "task_id y \<notin> task_id ` set ys" by simp
    then have "\<forall>t\<in>set ys. task_id t \<noteq> task_id y" by (metis imageI)
    then have "taskMinutes (task_id y) ys = 0"
      by (induction ys) (simp_all add: taskMinutes_def)
    with True show ?thesis by (simp add: taskMinutes_def)
  next
    case False
    with Cons.prems have x: "x \<in> set ys" and d: "distinct (map task_id ys)" by simp_all
    from Cons.prems(1) have "task_id y \<notin> task_id ` set ys" by simp
    with x have "task_id y \<noteq> task_id x" by (metis imageI)
    with Cons.IH [OF d x] show ?thesis by (simp add: taskMinutes_def)
  qed
qed

lemma fittingLoop_rollover_positive:
  assumes buf: "0 \<le> bufferMinutes settings" and ord: "orderedGaps G"
    and inv: "loopInv (bufferMinutes settings) G st"
    and pos: "\<forall>t\<in>set (rollover st). 0 < durationMinutes t"
  shows "\<forall>t\<in>set (rollover (fittingLoop settings st)). 0 < durationMinutes t"
proof -
  have "loopInv (bufferMinutes settings) G (fittingLoop settings st) \<and>
      (\<forall>t\<in>set (rollover (fittingLoop settings st)). 0 < durationMinutes t)"
  proof (rule fittingLoop_invariant [where P = "\<lambda>s::LoopState.
      loopInv (bufferMinutes settings) G s \<and> (\<forall>t\<in>set (rollover s). 0 < durationMinutes t)"])
    from inv pos show "loopInv (bufferMinutes settings) G st \<and>
      (\<forall>t\<in>set (rollover st). 0 < durationMinutes t)" by (rule conjI)
  next
    fix s :: LoopState and task rest
    assume a: "loopInv (bufferMinutes settings) G s \<and> (\<forall>t\<in>set (rollover s). 0 < durationMinutes t)"
      and q: "queue s = task # rest"
    from a q have task: "0 < durationMinutes task" by (simp add: loopInv_def)
    from a have 1: "loopInv (bufferMinutes settings) G (iteration settings task rest s)"
      by (intro loopInv_iteration [OF buf ord _ q]) simp
    from iteration_rollover [of settings task rest s] a task
    have 2: "\<forall>t\<in>set (rollover (iteration settings task rest s)). 0 < durationMinutes t"
      by auto
    from 1 2 show "loopInv (bufferMinutes settings) G (iteration settings task rest s) \<and>
      (\<forall>t\<in>set (rollover (iteration settings task rest s)). 0 < durationMinutes t)"
      by (rule conjI)
  qed
  then show ?thesis by (rule conjunct2)
qed

lemma run_positive:
  assumes wf: "wellFormed tasks settings"
    and pass: "fixedPass settings (fixedTasks tasks) = Some (bs, occ)"
  shows "\<forall>t\<in>set (rollover (fittingLoop settings \<lparr>queue = floatingTasks tasks,
            gaps = initialGaps occ 360 1380, st_blocks = bs, rollover = []\<rparr>)). 0 < durationMinutes t"
    and "\<forall>b\<in>set (st_blocks (fittingLoop settings \<lparr>queue = floatingTasks tasks,
            gaps = initialGaps occ 360 1380, st_blocks = bs, rollover = []\<rparr>)).
           \<not> isLocked b \<longrightarrow> startTime b < endTime b"
proof -
  let ?G = "initialGaps occ 360 1380"
  let ?st = "\<lparr>queue = floatingTasks tasks, gaps = ?G, st_blocks = bs, rollover = []\<rparr>"
  from wf have buf: "0 \<le> bufferMinutes settings" by (simp add: wellFormed_def)
  note G = initialGaps_facts [OF wf pass]
  note locked = fixed_all_locked [OF wf pass]
  have q: "\<forall>t\<in>set (floatingTasks tasks). 0 < durationMinutes t"
    using wf by (auto simp: floatingTasks_set wellFormed_def)
  have fl: "floatingBlocks bs = []"
    using locked by (simp add: floatingBlocks_def filter_empty_conv)
  have inv: "loopInv (bufferMinutes settings) ?G ?st"
    using G(2) q fl by (simp add: loopInv_def)
  show "\<forall>t\<in>set (rollover (fittingLoop settings ?st)). 0 < durationMinutes t"
    by (rule fittingLoop_rollover_positive [OF buf G(1) inv]) simp
  from wf pass obtain new gs where
    new: "st_blocks (fittingLoop settings ?st) = bs @ new"
      "\<forall>b\<in>set new. blockInv (bufferMinutes settings) ?G gs b"
    by (rule run_loop)
  show "\<forall>b\<in>set (st_blocks (fittingLoop settings ?st)). \<not> isLocked b \<longrightarrow> startTime b < endTime b"
  proof (intro ballI impI)
    fix b assume "b \<in> set (st_blocks (fittingLoop settings ?st))" "\<not> isLocked b"
    with new(1) locked have "b \<in> set new" by auto
    with new(2) show "startTime b < endTime b" by (auto simp: blockInv_def)
  qed
qed

subsection \<open>The blocks of a run, by kind\<close>

text \<open>
  A successful pass over the fixed tasks returns exactly one locked block for every
  task it does not skip, in the order of the tasks.
\<close>

lemma fixedPass_exact:
  "fixedPass settings ts = Some (bs, occ) \<Longrightarrow>
   list_all2 (\<lambda>b t. b = lockedBlock t (startTime b) \<and>
        (\<exists>time. fixedStartTime t = Some time \<and> timeToMinutes time = Some (Num (startTime b))))
     bs (filter (\<lambda>t. fixedStartTime t \<noteq> None \<and> fixedStartTime t \<noteq> Some []) ts)"
proof (induction ts arbitrary: bs occ)
  case Nil
  then show ?case by simp
next
  case (Cons task rest)
  show ?case
  proof (cases "fixedStartTime task = None \<or> fixedStartTime task = Some []")
    case True
    with Cons.prems have "fixedPass settings rest = Some (bs, occ)"
      by (simp only: fixedPass_skip)
    from Cons.IH [OF this] True show ?thesis by auto
  next
    case False
    then obtain time where time: "fixedStartTime task = Some time" "time \<noteq> []" by auto
    show ?thesis
    proof (cases "\<exists>n. timeToMinutes time = Some (Num n)")
      case False
      with fixedPass_fails [OF time, of settings rest] Cons.prems show ?thesis by simp
    next
      case True
      then obtain n where n: "timeToMinutes time = Some (Num n)" by blast
      from Cons.prems fixedPass_clock [OF time n, of settings rest]
      obtain bs' occ' where rest: "fixedPass settings rest = Some (bs', occ')"
        and bs: "bs = lockedBlock task n # bs'"
        by (auto split: option.splits)
      have start: "startTime (lockedBlock task n) = n" by (simp add: lockedBlock_def)
      from Cons.IH [OF rest] time n bs start show ?thesis by simp
    qed
  qed
qed

lemma iteration_block_type:
  "\<exists>new. st_blocks (iteration settings task rest st) = st_blocks st @ new \<and>
     (\<forall>b\<in>set new. taskType b = task_type task)"
  by (rule iteration_cases [where st=st and task=task and settings=settings and rest=rest])
    (simp_all add: placedBlock_def partABlock_def)

lemma fittingLoop_block_type:
  assumes "\<forall>t\<in>set (queue st). task_type t = FLOATING"
    and "\<forall>b\<in>set (st_blocks st). \<not> isLocked b \<longrightarrow> taskType b = FLOATING"
  shows "\<forall>b\<in>set (st_blocks (fittingLoop settings st)). \<not> isLocked b \<longrightarrow> taskType b = FLOATING"
proof -
  have "(\<forall>t\<in>set (queue (fittingLoop settings st)). task_type t = FLOATING) \<and>
        (\<forall>b\<in>set (st_blocks (fittingLoop settings st)). \<not> isLocked b \<longrightarrow> taskType b = FLOATING)"
  proof (rule fittingLoop_invariant [where P = "\<lambda>s::LoopState.
        (\<forall>t\<in>set (queue s). task_type t = FLOATING) \<and>
        (\<forall>b\<in>set (st_blocks s). \<not> isLocked b \<longrightarrow> taskType b = FLOATING)"])
    from assms show "(\<forall>t\<in>set (queue st). task_type t = FLOATING) \<and>
        (\<forall>b\<in>set (st_blocks st). \<not> isLocked b \<longrightarrow> taskType b = FLOATING)" by (rule conjI)
  next
    fix s :: LoopState and task rest
    assume a: "(\<forall>t\<in>set (queue s). task_type t = FLOATING) \<and>
        (\<forall>b\<in>set (st_blocks s). \<not> isLocked b \<longrightarrow> taskType b = FLOATING)"
      and q: "queue s = task # rest"
    from a q have task: "task_type task = FLOATING" and rest: "\<forall>t\<in>set rest. task_type t = FLOATING"
      and old: "\<forall>b\<in>set (st_blocks s). \<not> isLocked b \<longrightarrow> taskType b = FLOATING" by simp_all
    from iteration_queue_type [of settings task rest s] task rest
    have 1: "\<forall>t\<in>set (queue (iteration settings task rest s)). task_type t = FLOATING"
      by auto
    from iteration_block_type [of settings task rest s] obtain new where
      new: "st_blocks (iteration settings task rest s) = st_blocks s @ new"
        "\<forall>b\<in>set new. taskType b = task_type task" by blast
    from new task old
    have 2: "\<forall>b\<in>set (st_blocks (iteration settings task rest s)).
        \<not> isLocked b \<longrightarrow> taskType b = FLOATING" by auto
    from 1 2 show "(\<forall>t\<in>set (queue (iteration settings task rest s)). task_type t = FLOATING) \<and>
        (\<forall>b\<in>set (st_blocks (iteration settings task rest s)).
           \<not> isLocked b \<longrightarrow> taskType b = FLOATING)" by (rule conjI)
  qed
  then show ?thesis by (rule conjunct2)
qed

section \<open>The claims about the schedule\<close>

text \<open>
  Claim C1, amended: on well-formed input (a buffer that is not negative, positive
  durations, fixed start times that are clock times of the day) any two emitted blocks
  of which at least one is unlocked have disjoint ranges \<open>[startTime, endTime)\<close>,
  the parts of a split task included. Two locked blocks overlap whenever the fixed
  times of their tasks do: the engine emits them as given.
\<close>

theorem C1_no_overlap_with_floating:
  assumes wf: "wellFormed tasks settings"
  shows "\<exists>r. rescheduleDay tasks settings = Some r \<and>
    (\<forall>j k. j < k \<and> k < length (blocks r) \<and>
         \<not> (isLocked (blocks r ! j) \<and> isLocked (blocks r ! k)) \<longrightarrow>
       \<not> overlaps (blocks r ! j) (blocks r ! k))"
proof -
  let ?buf = "bufferMinutes settings"
  let ?R = "\<lambda>a b. isLocked a \<and> isLocked b \<or> \<not> overlaps a b"
  from wf obtain bs occ where pass: "fixedPass settings (fixedTasks tasks) = Some (bs, occ)"
    and run: "rescheduleDay tasks settings =
       Some \<lparr>blocks = st_blocks (fittingLoop settings
                   \<lparr>queue = floatingTasks tasks, gaps = initialGaps occ 360 1380,
                    st_blocks = bs, rollover = []\<rparr>),
             rolloverTasks = rollover (fittingLoop settings
                   \<lparr>queue = floatingTasks tasks, gaps = initialGaps occ 360 1380,
                    st_blocks = bs, rollover = []\<rparr>)\<rparr>"
    by (rule wellFormed_run)
  let ?G = "initialGaps occ 360 1380"
  from wf pass obtain new gs where
    new: "st_blocks (fittingLoop settings \<lparr>queue = floatingTasks tasks, gaps = ?G,
        st_blocks = bs, rollover = []\<rparr>) = bs @ new"
      "\<forall>b\<in>set new. \<not> isLocked b"
      "\<forall>b\<in>set new. blockInv ?buf ?G gs b"
      "sorted_wrt (separated ?buf ?G) new"
    by (rule run_loop)
  from wf have buf: "0 \<le> ?buf" by (simp add: wellFormed_def)
  note ord = initialGaps_facts(1) [OF wf pass]
  have 1: "sorted_wrt ?R bs"
  proof (rule sorted_wrt_mono_rel [of bs "\<lambda>a b. True"])
    show "sorted_wrt (\<lambda>a b. True) bs" by simp
  qed (use fixed_all_locked [OF wf pass] in simp)
  have 2: "sorted_wrt ?R new"
  proof (rule sorted_wrt_mono_rel [OF _ new(4)])
    fix a b assume "a \<in> set new" "b \<in> set new" "separated ?buf ?G a b"
    with new(3) floating_disjoint [OF ord buf, of gs a b] show "?R a b" by blast
  qed
  have 3: "\<forall>a\<in>set bs. \<forall>b\<in>set new. ?R a b"
    using fixed_floating_disjoint [OF wf pass] new(3) by blast
  from 1 2 3 have "sorted_wrt ?R (bs @ new)" by (simp add: sorted_wrt_append)
  then have "\<forall>j k. j < k \<longrightarrow> k < length (bs @ new) \<longrightarrow> ?R ((bs @ new) ! j) ((bs @ new) ! k)"
    by (simp only: sorted_wrt_iff_nth_less)
  then have main: "\<forall>j k. j < k \<and> k < length (bs @ new) \<and>
         \<not> (isLocked ((bs @ new) ! j) \<and> isLocked ((bs @ new) ! k)) \<longrightarrow>
       \<not> overlaps ((bs @ new) ! j) ((bs @ new) ! k)" by blast
  let ?r = "\<lparr>blocks = bs @ new, rolloverTasks = rollover (fittingLoop settings
      \<lparr>queue = floatingTasks tasks, gaps = ?G, st_blocks = bs, rollover = []\<rparr>)\<rparr>"
  from run new(1) have r: "rescheduleDay tasks settings = Some ?r" by (simp only:)
  have b: "blocks ?r = bs @ new" by simp
  show ?thesis
  proof (intro exI [of _ ?r] conjI)
    show "rescheduleDay tasks settings = Some ?r" by (rule r)
    show "\<forall>j k. j < k \<and> k < length (blocks ?r) \<and>
         \<not> (isLocked (blocks ?r ! j) \<and> isLocked (blocks ?r ! k)) \<longrightarrow>
       \<not> overlaps (blocks ?r ! j) (blocks ?r ! k)"
      unfolding b by (rule main)
  qed
qed

theorem C1_no_overlap_with_floating_witness:
  "wellFormed meetingAndWork buffer15 \<and>
   (\<exists>r. rescheduleDay meetingAndWork buffer15 = Some r \<and>
      map blockTimes (blocks r) = [(''1'', True, 540, 630), (''A'', False, 360, 480)] \<and>
      \<not> overlaps (blocks r ! 0) (blocks r ! 1))"
proof -
  have wf: "wellFormed meetingAndWork buffer15" by code_simp
  have "map_option (\<lambda>r. map blockTimes (blocks r)) (rescheduleDay meetingAndWork buffer15)
    = Some [(''1'', True, 540, 630), (''A'', False, 360, 480)]"
    by code_simp
  then obtain r where r: "rescheduleDay meetingAndWork buffer15 = Some r"
    "map blockTimes (blocks r) = [(''1'', True, 540, 630), (''A'', False, 360, 480)]"
    by (rule run_value)
  from r(2) have len: "length (blocks r) = 2" by (metis length_map length_Cons list.size(3) numeral_2_eq_2)
  from C1_no_overlap_with_floating [OF wf] r(1)
  have "\<forall>j k. j < k \<and> k < length (blocks r) \<and>
         \<not> (isLocked (blocks r ! j) \<and> isLocked (blocks r ! k)) \<longrightarrow>
       \<not> overlaps (blocks r ! j) (blocks r ! k)" by simp
  moreover from blockTimes_nth(2) [OF r(2), of 1] have "\<not> isLocked (blocks r ! 1)" by simp
  ultimately have "\<not> overlaps (blocks r ! 0) (blocks r ! 1)" using len by simp
  with wf r show ?thesis by - (intro conjI exI [of _ r]; assumption)
qed

text \<open>
  Claim C1, as stated, fails for two locked blocks: anchors at 09:00 and 09:30 of 60
  minutes each are both emitted, and their ranges overlap.
\<close>

theorem C1_counterexample:
  "\<exists>r. rescheduleDay clashingAnchors zeroBuffer = Some r \<and>
     map blockTimes (blocks r) = [(''1'', True, 540, 600), (''2'', True, 570, 630)] \<and>
     overlaps (blocks r ! 0) (blocks r ! 1)"
proof -
  have "map_option (\<lambda>r. map blockTimes (blocks r)) (rescheduleDay clashingAnchors zeroBuffer)
    = Some [(''1'', True, 540, 600), (''2'', True, 570, 630)]"
    by code_simp
  then obtain r where r: "rescheduleDay clashingAnchors zeroBuffer = Some r"
    "map blockTimes (blocks r) = [(''1'', True, 540, 600), (''2'', True, 570, 630)]"
    by (rule run_value)
  from blockTimes_nth [OF r(2), of 0] blockTimes_nth [OF r(2), of 1]
  have "overlaps (blocks r ! 0) (blocks r ! 1)" by (simp add: overlaps_def)
  with r show ?thesis by - (intro conjI exI [of _ r]; assumption)
qed

text \<open>
  Claim C2, amended: every Floating task that is not Completed is represented in at
  least one output, by an unlocked block with its id or by a rollover entry with its
  id. With distinct ids, a task that is rolled over whole has no block, and a task
  with a block of its full length has no rollover entry. A split task can be in both
  outputs: its Part 1 is placed and the remainder is rolled over.
\<close>

theorem C2_represented:
  assumes wf: "wellFormed tasks settings"
    and ids: "distinct (map task_id
        (filter (\<lambda>t. task_type t = FLOATING \<and> status t \<noteq> COMPLETED) tasks))"
  shows "\<exists>r. rescheduleDay tasks settings = Some r \<and>
    (\<forall>t\<in>set tasks. task_type t = FLOATING \<and> status t \<noteq> COMPLETED \<longrightarrow>
       ((\<exists>b\<in>set (blocks r). \<not> isLocked b \<and> taskId b = task_id t) \<or>
        (\<exists>x\<in>set (rolloverTasks r). task_id x = task_id t)) \<and>
       (t \<in> set (rolloverTasks r) \<longrightarrow>
          (\<forall>b\<in>set (blocks r). \<not> isLocked b \<longrightarrow> taskId b \<noteq> task_id t)) \<and>
       (\<forall>b\<in>set (blocks r). \<not> isLocked b \<and> taskId b = task_id t \<and>
            endTime b - startTime b = durationMinutes t \<longrightarrow>
          (\<forall>x\<in>set (rolloverTasks r). task_id x \<noteq> task_id t)))"
proof -
  from wf obtain bs occ where pass: "fixedPass settings (fixedTasks tasks) = Some (bs, occ)"
    and run: "rescheduleDay tasks settings =
       Some \<lparr>blocks = st_blocks (fittingLoop settings
                   \<lparr>queue = floatingTasks tasks, gaps = initialGaps occ 360 1380,
                    st_blocks = bs, rollover = []\<rparr>),
             rolloverTasks = rollover (fittingLoop settings
                   \<lparr>queue = floatingTasks tasks, gaps = initialGaps occ 360 1380,
                    st_blocks = bs, rollover = []\<rparr>)\<rparr>"
    by (rule wellFormed_run)
  let ?st = "\<lparr>queue = floatingTasks tasks, gaps = initialGaps occ 360 1380,
                    st_blocks = bs, rollover = []\<rparr>"
  let ?B = "st_blocks (fittingLoop settings ?st)" and ?R = "rollover (fittingLoop settings ?st)"
  let ?sel = "filter (\<lambda>t. task_type t = FLOATING \<and> status t \<noteq> COMPLETED) tasks"
  note pos = run_positive [OF wf pass]
  have main: "\<forall>t\<in>set tasks. task_type t = FLOATING \<and> status t \<noteq> COMPLETED \<longrightarrow>
       ((\<exists>b\<in>set ?B. \<not> isLocked b \<and> taskId b = task_id t) \<or>
        (\<exists>x\<in>set ?R. task_id x = task_id t)) \<and>
       (t \<in> set ?R \<longrightarrow> (\<forall>b\<in>set ?B. \<not> isLocked b \<longrightarrow> taskId b \<noteq> task_id t)) \<and>
       (\<forall>b\<in>set ?B. \<not> isLocked b \<and> taskId b = task_id t \<and>
            endTime b - startTime b = durationMinutes t \<longrightarrow>
          (\<forall>x\<in>set ?R. task_id x \<noteq> task_id t))"
  proof (rule ballI, rule impI)
    fix t assume t: "t \<in> set tasks" and sel: "task_type t = FLOATING \<and> status t \<noteq> COMPLETED"
    then have tq: "t \<in> set (floatingTasks tasks)" and ts: "t \<in> set ?sel"
      by (simp_all add: floatingTasks_set)
    from tq have "represented (task_id t) ?st" by (auto simp: represented_def)
    from fittingLoop_represented [OF this]
    have A: "(\<exists>b\<in>set ?B. \<not> isLocked b \<and> taskId b = task_id t) \<or> (\<exists>x\<in>set ?R. task_id x = task_id t)" .
    have total: "blockMinutes (task_id t) ?B + taskMinutes (task_id t) ?R = durationMinutes t"
      using run_minutes [OF pass, where i = "task_id t" and G = "initialGaps occ 360 1380"]
        taskMinutes_distinct [OF ids ts] by simp
    have B: "t \<in> set ?R \<longrightarrow> (\<forall>b\<in>set ?B. \<not> isLocked b \<longrightarrow> taskId b \<noteq> task_id t)"
    proof (intro ballI impI notI)
      fix b assume r: "t \<in> set ?R" and b: "b \<in> set ?B" "\<not> isLocked b" "taskId b = task_id t"
      from taskMinutes_member [OF pos(1) r] have "durationMinutes t \<le> taskMinutes (task_id t) ?R" .
      moreover from blockMinutes_member [OF pos(2) b(1,2)] b(3)
      have "endTime b - startTime b \<le> blockMinutes (task_id t) ?B" by simp
      moreover from pos(2) b have "0 < endTime b - startTime b" by simp
      ultimately show False using total by simp
    qed
    have C: "\<forall>b\<in>set ?B. \<not> isLocked b \<and> taskId b = task_id t \<and>
            endTime b - startTime b = durationMinutes t \<longrightarrow> (\<forall>x\<in>set ?R. task_id x \<noteq> task_id t)"
    proof (intro ballI impI notI)
      fix b x assume b: "b \<in> set ?B" "\<not> isLocked b \<and> taskId b = task_id t \<and>
            endTime b - startTime b = durationMinutes t" and x: "x \<in> set ?R" "task_id x = task_id t"
      from blockMinutes_member [OF pos(2) b(1)] b(2)
      have "durationMinutes t \<le> blockMinutes (task_id t) ?B" by simp
      moreover from taskMinutes_member [OF pos(1) x(1)] x(2)
      have "durationMinutes x \<le> taskMinutes (task_id t) ?R" by simp
      moreover from pos(1) x(1) have "0 < durationMinutes x" by simp
      ultimately show False using total by simp
    qed
    from A B C show "((\<exists>b\<in>set ?B. \<not> isLocked b \<and> taskId b = task_id t) \<or>
        (\<exists>x\<in>set ?R. task_id x = task_id t)) \<and>
       (t \<in> set ?R \<longrightarrow> (\<forall>b\<in>set ?B. \<not> isLocked b \<longrightarrow> taskId b \<noteq> task_id t)) \<and>
       (\<forall>b\<in>set ?B. \<not> isLocked b \<and> taskId b = task_id t \<and>
            endTime b - startTime b = durationMinutes t \<longrightarrow>
          (\<forall>x\<in>set ?R. task_id x \<noteq> task_id t))"
      by (intro conjI)
  qed
  let ?r = "\<lparr>blocks = ?B, rolloverTasks = ?R\<rparr>"
  have sel: "blocks ?r = ?B" "rolloverTasks ?r = ?R" by simp_all
  show ?thesis
  proof (intro exI [of _ ?r] conjI)
    show "rescheduleDay tasks settings = Some ?r" by (rule run)
    show "\<forall>t\<in>set tasks. task_type t = FLOATING \<and> status t \<noteq> COMPLETED \<longrightarrow>
       ((\<exists>b\<in>set (blocks ?r). \<not> isLocked b \<and> taskId b = task_id t) \<or>
        (\<exists>x\<in>set (rolloverTasks ?r). task_id x = task_id t)) \<and>
       (t \<in> set (rolloverTasks ?r) \<longrightarrow>
          (\<forall>b\<in>set (blocks ?r). \<not> isLocked b \<longrightarrow> taskId b \<noteq> task_id t)) \<and>
       (\<forall>b\<in>set (blocks ?r). \<not> isLocked b \<and> taskId b = task_id t \<and>
            endTime b - startTime b = durationMinutes t \<longrightarrow>
          (\<forall>x\<in>set (rolloverTasks ?r). task_id x \<noteq> task_id t))"
      unfolding sel by (rule main)
  qed
qed

theorem C2_represented_witness:
  "wellFormed twoFloating buffer10 \<and>
   distinct (map task_id (filter (\<lambda>t. task_type t = FLOATING \<and> status t \<noteq> COMPLETED) twoFloating)) \<and>
   (\<exists>r. rescheduleDay twoFloating buffer10 = Some r \<and>
      map blockTimes (blocks r) = [(''A'', False, 360, 420), (''B'', False, 430, 460)] \<and>
      rolloverTasks r = [] \<and>
      ((\<exists>b\<in>set (blocks r). \<not> isLocked b \<and> taskId b = ''A'') \<or>
       (\<exists>x\<in>set (rolloverTasks r). task_id x = ''A'')))"
proof -
  let ?t = "mkTask ''A'' FLOATING 1 60 False None"
  have wf: "wellFormed twoFloating buffer10" by code_simp
  have ids: "distinct (map task_id
      (filter (\<lambda>t. task_type t = FLOATING \<and> status t \<noteq> COMPLETED) twoFloating))"
    by (simp add: twoFloating_def mkTask_def)
  have "map_option (\<lambda>r. (map blockTimes (blocks r), rolloverTasks r)) (rescheduleDay twoFloating buffer10)
    = Some ([(''A'', False, 360, 420), (''B'', False, 430, 460)], [])"
    by code_simp
  then obtain r where r: "rescheduleDay twoFloating buffer10 = Some r"
    "(map blockTimes (blocks r), rolloverTasks r) = ([(''A'', False, 360, 420), (''B'', False, 430, 460)], [])"
    by (rule run_value)
  have t: "?t \<in> set twoFloating" by (simp add: twoFloating_def)
  have f: "task_type ?t = FLOATING \<and> status ?t \<noteq> COMPLETED" by (simp add: mkTask_def)
  from C2_represented [OF wf ids] r(1)
  have "\<forall>t\<in>set twoFloating. task_type t = FLOATING \<and> status t \<noteq> COMPLETED \<longrightarrow>
       ((\<exists>b\<in>set (blocks r). \<not> isLocked b \<and> taskId b = task_id t) \<or>
        (\<exists>x\<in>set (rolloverTasks r). task_id x = task_id t)) \<and>
       (t \<in> set (rolloverTasks r) \<longrightarrow>
          (\<forall>b\<in>set (blocks r). \<not> isLocked b \<longrightarrow> taskId b \<noteq> task_id t)) \<and>
       (\<forall>b\<in>set (blocks r). \<not> isLocked b \<and> taskId b = task_id t \<and>
            endTime b - startTime b = durationMinutes t \<longrightarrow>
          (\<forall>x\<in>set (rolloverTasks r). task_id x \<noteq> task_id t))"
    by simp
  from bspec [OF this t] f
  have "(\<exists>b\<in>set (blocks r). \<not> isLocked b \<and> taskId b = task_id ?t) \<or>
        (\<exists>x\<in>set (rolloverTasks r). task_id x = task_id ?t)"
    by (simp only: simp_thms)
  then have "(\<exists>b\<in>set (blocks r). \<not> isLocked b \<and> taskId b = ''A'') \<or>
       (\<exists>x\<in>set (rolloverTasks r). task_id x = ''A'')"
    by (simp add: mkTask_def)
  with wf ids r show ?thesis by - (intro conjI exI [of _ r]; (assumption | simp))
qed

text \<open>
  Claim C2, as stated, fails: a splittable task of 1100 minutes on an empty day has its
  Part 1 placed from 06:00 to 23:00 while the 80-minute Part 2 is in the rollover.
\<close>

theorem C2_counterexample:
  "\<exists>r. rescheduleDay [report] zeroBuffer = Some r \<and>
     map blockTimes (blocks r) = [(''A'', False, 360, 1380)] \<and>
     map taskTitle (blocks r) = [''Report (Part 1)''] \<and>
     map task_id (rolloverTasks r) = [''A''] \<and>
     map title (rolloverTasks r) = [''Report (Part 2)''] \<and>
     map durationMinutes (rolloverTasks r) = [80]"
proof -
  have "map_option (\<lambda>r. (map blockTimes (blocks r), map taskTitle (blocks r),
      map task_id (rolloverTasks r), map title (rolloverTasks r),
      map durationMinutes (rolloverTasks r))) (rescheduleDay [report] zeroBuffer)
    = Some ([(''A'', False, 360, 1380)], [''Report (Part 1)''], [''A''], [''Report (Part 2)''], [80])"
    by code_simp
  then obtain r where "rescheduleDay [report] zeroBuffer = Some r"
    "(map blockTimes (blocks r), map taskTitle (blocks r),
      map task_id (rolloverTasks r), map title (rolloverTasks r),
      map durationMinutes (rolloverTasks r))
     = ([(''A'', False, 360, 1380)], [''Report (Part 1)''], [''A''], [''Report (Part 2)''], [80])"
    by (rule run_value)
  then show ?thesis by (intro exI [of _ r]) simp
qed

text \<open>
  Claim C3, amended: a split emits a Part 1 block of at least 15 minutes and re-queues
  the rest of the task as a remainder, which is then placed, split again or rolled
  over. So for every task id the minutes of the unlocked blocks that carry it plus the
  minutes of the rollover entries that carry it are the minutes of the floating tasks
  with that id; and every block with a \<^verbatim>\<open>partA\<close> identifier is at least 15 minutes long.
\<close>

theorem C3_minutes_conserved:
  assumes "rescheduleDay tasks settings = Some r"
  shows "(\<forall>i. blockMinutes i (blocks r) + taskMinutes i (rolloverTasks r)
            = taskMinutes i (filter (\<lambda>t. task_type t = FLOATING \<and> status t \<noteq> COMPLETED) tasks)) \<and>
         (\<forall>b\<in>set (blocks r). block_id b = PartABlock (taskId b) \<longrightarrow> 15 \<le> endTime b - startTime b)"
proof -
  from assms obtain bs occ where pass: "fixedPass settings (fixedTasks tasks) = Some (bs, occ)"
    and r: "blocks r = st_blocks (fittingLoop settings
        \<lparr>queue = floatingTasks tasks, gaps = initialGaps occ 360 1380, st_blocks = bs, rollover = []\<rparr>)"
    "rolloverTasks r = rollover (fittingLoop settings
        \<lparr>queue = floatingTasks tasks, gaps = initialGaps occ 360 1380, st_blocks = bs, rollover = []\<rparr>)"
    by (rule rescheduleDay_Some)
  let ?st = "\<lparr>queue = floatingTasks tasks, gaps = initialGaps occ 360 1380, st_blocks = bs, rollover = []\<rparr>"
  have 1: "\<forall>i. blockMinutes i (blocks r) + taskMinutes i (rolloverTasks r)
            = taskMinutes i (filter (\<lambda>t. task_type t = FLOATING \<and> status t \<noteq> COMPLETED) tasks)"
    unfolding r using run_minutes [OF pass] by blast
  from fittingLoop_blocks [of settings ?st] obtain new where
    new: "st_blocks (fittingLoop settings ?st) = bs @ new"
      "\<forall>b\<in>set new. \<not> isLocked b \<and>
        (block_id b = PlacedBlock (taskId b) \<or>
         block_id b = PartABlock (taskId b) \<and> 15 \<le> endTime b - startTime b)"
    by auto
  have 2: "\<forall>b\<in>set (blocks r). block_id b = PartABlock (taskId b) \<longrightarrow> 15 \<le> endTime b - startTime b"
  proof (intro ballI impI)
    fix b assume b: "b \<in> set (blocks r)" "block_id b = PartABlock (taskId b)"
    from b(1) r(1) new(1) consider "b \<in> set bs" | "b \<in> set new" by auto
    then show "15 \<le> endTime b - startTime b"
    proof cases
      case 1
      from fixedPass_locked(2) [OF pass 1] b(2) show ?thesis by simp
    next
      case 2
      with new(2) b(2) show ?thesis by auto
    qed
  qed
  from 1 2 show ?thesis by (rule conjI)
qed

theorem C3_minutes_conserved_witness:
  "\<exists>r. rescheduleDay [report] zeroBuffer = Some r \<and>
     map blockTimes (blocks r) = [(''A'', False, 360, 1380)] \<and>
     map durationMinutes (rolloverTasks r) = [80] \<and>
     blockMinutes ''A'' (blocks r) + taskMinutes ''A'' (rolloverTasks r) = 1100"
proof -
  have "map_option (\<lambda>r. (map blockTimes (blocks r), map durationMinutes (rolloverTasks r)))
      (rescheduleDay [report] zeroBuffer)
    = Some ([(''A'', False, 360, 1380)], [80])"
    by code_simp
  then obtain r where r: "rescheduleDay [report] zeroBuffer = Some r"
    "(map blockTimes (blocks r), map durationMinutes (rolloverTasks r)) = ([(''A'', False, 360, 1380)], [80])"
    by (rule run_value)
  have "taskMinutes ''A'' (filter (\<lambda>t. task_type t = FLOATING \<and> status t \<noteq> COMPLETED) [report]) = 1100"
    by (simp add: taskMinutes_def report_def)
  with C3_minutes_conserved [OF r(1)]
  have "blockMinutes ''A'' (blocks r) + taskMinutes ''A'' (rolloverTasks r) = 1100"
    by simp
  with r show ?thesis by - (intro conjI exI [of _ r]; (assumption | simp))
qed

text \<open>
  Claim C3, as stated, fails: with gaps of 30 and 20 minutes a splittable task of 31
  minutes is split into a Part 1 of 30 minutes and a Part 2 of one minute.
\<close>

theorem C3_counterexample:
  "\<exists>r. rescheduleDay shortRemainder zeroBuffer = Some r \<and>
     map blockTimes (blocks r) = [(''1'', True, 390, 450), (''2'', True, 470, 1380),
                             (''T'', False, 360, 390), (''T'', False, 450, 451)] \<and>
     map taskTitle (blocks r) = [''Task 1'', ''Task 2'', ''Task T (Part 1)'', ''Task T (Part 2)''] \<and>
     rolloverTasks r = [] \<and>
     endTime (blocks r ! 3) - startTime (blocks r ! 3) = 1"
proof -
  have "map_option (\<lambda>r. (map blockTimes (blocks r), map taskTitle (blocks r), rolloverTasks r))
      (rescheduleDay shortRemainder zeroBuffer)
    = Some ([(''1'', True, 390, 450), (''2'', True, 470, 1380),
             (''T'', False, 360, 390), (''T'', False, 450, 451)],
            [''Task 1'', ''Task 2'', ''Task T (Part 1)'', ''Task T (Part 2)''], [])"
    by code_simp
  then obtain r where r: "rescheduleDay shortRemainder zeroBuffer = Some r"
    "(map blockTimes (blocks r), map taskTitle (blocks r), rolloverTasks r)
     = ([(''1'', True, 390, 450), (''2'', True, 470, 1380),
             (''T'', False, 360, 390), (''T'', False, 450, 451)],
            [''Task 1'', ''Task 2'', ''Task T (Part 1)'', ''Task T (Part 2)''], [])"
    by (rule run_value)
  from r(2) have t: "map blockTimes (blocks r) = [(''1'', True, 390, 450), (''2'', True, 470, 1380),
             (''T'', False, 360, 390), (''T'', False, 450, 451)]" by simp
  from blockTimes_nth(3,4) [OF t, of 3]
  have "endTime (blocks r ! 3) - startTime (blocks r ! 3) = 1" by simp
  with r show ?thesis by (intro exI [of _ r]) simp
qed

text \<open>
  Claim C4 on the code. With a buffer of 10 minutes the only gap is 06:00 to 06:24, so
  its duration minus the buffer is 14. The 40-minute splittable task is not rolled
  over whole: a Part 1 of 15 minutes is placed at 06:00 and the 25-minute remainder is
  rolled over.
\<close>

theorem C4_split_accepted_at_14:
  "\<exists>r. rescheduleDay tightGap buffer10 = Some r \<and>
     map blockTimes (blocks r) = [(''1'', True, 394, 1394), (''A'', False, 360, 375)] \<and>
     map taskTitle (blocks r) = [''Task 1'', ''Task A (Part 1)''] \<and>
     map title (rolloverTasks r) = [''Task A (Part 2)''] \<and>
     map durationMinutes (rolloverTasks r) = [25]"
proof -
  have "map_option (\<lambda>r. (map blockTimes (blocks r), map taskTitle (blocks r),
      map title (rolloverTasks r), map durationMinutes (rolloverTasks r)))
      (rescheduleDay tightGap buffer10)
    = Some ([(''1'', True, 394, 1394), (''A'', False, 360, 375)],
            [''Task 1'', ''Task A (Part 1)''], [''Task A (Part 2)''], [25])"
    by code_simp
  then obtain r where "rescheduleDay tightGap buffer10 = Some r"
    "(map blockTimes (blocks r), map taskTitle (blocks r),
      map title (rolloverTasks r), map durationMinutes (rolloverTasks r))
     = ([(''1'', True, 394, 1394), (''A'', False, 360, 375)],
            [''Task 1'', ''Task A (Part 1)''], [''Task A (Part 2)''], [25])"
    by (rule run_value)
  then show ?thesis by (intro exI [of _ r]) simp
qed

text \<open>
  Claim C5: on well-formed input every unlocked block starts inside one of the initial
  gaps, and of two unlocked blocks that start inside the same initial gap the one
  emitted second starts no earlier than the first one's end plus \<^verbatim>\<open>bufferMinutes\<close>.
  The initial gaps are disjoint, so the blocks that start inside one are the blocks
  the loop placed into it.
\<close>

theorem C5_buffer_respected:
  assumes wf: "wellFormed tasks settings"
  shows "\<exists>r bs occ. rescheduleDay tasks settings = Some r \<and>
    fixedPass settings (fixedTasks tasks) = Some (bs, occ) \<and>
    (\<forall>b\<in>set (blocks r). \<not> isLocked b \<longrightarrow> (\<exists>g\<in>set (initialGaps occ 360 1380). in_gap g b)) \<and>
    (\<forall>g\<in>set (initialGaps occ 360 1380). \<forall>j k. j < k \<and> k < length (blocks r) \<and>
         \<not> isLocked (blocks r ! j) \<and> \<not> isLocked (blocks r ! k) \<and>
         in_gap g (blocks r ! j) \<and> in_gap g (blocks r ! k) \<longrightarrow>
       endTime (blocks r ! j) + bufferMinutes settings \<le> startTime (blocks r ! k))"
proof -
  let ?buf = "bufferMinutes settings"
  from wf obtain bs occ where pass: "fixedPass settings (fixedTasks tasks) = Some (bs, occ)"
    and run: "rescheduleDay tasks settings =
       Some \<lparr>blocks = st_blocks (fittingLoop settings
                   \<lparr>queue = floatingTasks tasks, gaps = initialGaps occ 360 1380,
                    st_blocks = bs, rollover = []\<rparr>),
             rolloverTasks = rollover (fittingLoop settings
                   \<lparr>queue = floatingTasks tasks, gaps = initialGaps occ 360 1380,
                    st_blocks = bs, rollover = []\<rparr>)\<rparr>"
    by (rule wellFormed_run)
  let ?G = "initialGaps occ 360 1380"
  let ?R = "\<lambda>a b. \<not> isLocked a \<and> \<not> isLocked b \<longrightarrow> separated ?buf ?G a b"
  from wf pass obtain new gs where
    new: "st_blocks (fittingLoop settings \<lparr>queue = floatingTasks tasks, gaps = ?G,
        st_blocks = bs, rollover = []\<rparr>) = bs @ new"
      "\<forall>b\<in>set new. \<not> isLocked b"
      "\<forall>b\<in>set new. blockInv ?buf ?G gs b"
      "sorted_wrt (separated ?buf ?G) new"
    by (rule run_loop)
  note locked = fixed_all_locked [OF wf pass]
  have 1: "sorted_wrt ?R bs"
  proof (rule sorted_wrt_mono_rel [of bs "\<lambda>a b. True"])
    show "sorted_wrt (\<lambda>a b. True) bs" by simp
  qed (use locked in simp)
  have 2: "sorted_wrt ?R new"
    by (rule sorted_wrt_mono_rel [OF _ new(4)]) simp
  have 3: "\<forall>a\<in>set bs. \<forall>b\<in>set new. ?R a b" using locked by simp
  from 1 2 3 have "sorted_wrt ?R (bs @ new)" by (simp add: sorted_wrt_append)
  then have nth: "\<forall>j k. j < k \<longrightarrow> k < length (bs @ new) \<longrightarrow> ?R ((bs @ new) ! j) ((bs @ new) ! k)"
    by (simp only: sorted_wrt_iff_nth_less)
  have sep: "\<forall>g\<in>set ?G. \<forall>j k. j < k \<and> k < length (bs @ new) \<and>
         \<not> isLocked ((bs @ new) ! j) \<and> \<not> isLocked ((bs @ new) ! k) \<and>
         in_gap g ((bs @ new) ! j) \<and> in_gap g ((bs @ new) ! k) \<longrightarrow>
       endTime ((bs @ new) ! j) + ?buf \<le> startTime ((bs @ new) ! k)"
  proof (intro ballI allI impI)
    fix g j k assume g: "g \<in> set ?G" and a: "j < k \<and> k < length (bs @ new) \<and>
         \<not> isLocked ((bs @ new) ! j) \<and> \<not> isLocked ((bs @ new) ! k) \<and>
         in_gap g ((bs @ new) ! j) \<and> in_gap g ((bs @ new) ! k)"
    with nth have "separated ?buf ?G ((bs @ new) ! j) ((bs @ new) ! k)" by blast
    with g a show "endTime ((bs @ new) ! j) + ?buf \<le> startTime ((bs @ new) ! k)"
      unfolding separated_def by blast
  qed
  have inside: "\<forall>b\<in>set (bs @ new). \<not> isLocked b \<longrightarrow> (\<exists>g\<in>set ?G. in_gap g b)"
  proof (intro ballI impI)
    fix b assume "b \<in> set (bs @ new)" "\<not> isLocked b"
    with locked have "b \<in> set new" by auto
    with new(3) have "blockInv ?buf ?G gs b" by blast
    then show "\<exists>g\<in>set ?G. in_gap g b" by (rule blockInv_gap) blast
  qed
  let ?r = "\<lparr>blocks = bs @ new, rolloverTasks = rollover (fittingLoop settings
      \<lparr>queue = floatingTasks tasks, gaps = ?G, st_blocks = bs, rollover = []\<rparr>)\<rparr>"
  from run new(1) have r: "rescheduleDay tasks settings = Some ?r" by (simp only:)
  have b: "blocks ?r = bs @ new" by simp
  show ?thesis
  proof (intro exI [of _ ?r] exI [of _ bs] exI [of _ occ] conjI)
    show "rescheduleDay tasks settings = Some ?r" by (rule r)
    show "fixedPass settings (fixedTasks tasks) = Some (bs, occ)" by (rule pass)
    show "\<forall>b\<in>set (blocks ?r). \<not> isLocked b \<longrightarrow> (\<exists>g\<in>set ?G. in_gap g b)"
      unfolding b by (rule inside)
    show "\<forall>g\<in>set ?G. \<forall>j k. j < k \<and> k < length (blocks ?r) \<and>
         \<not> isLocked (blocks ?r ! j) \<and> \<not> isLocked (blocks ?r ! k) \<and>
         in_gap g (blocks ?r ! j) \<and> in_gap g (blocks ?r ! k) \<longrightarrow>
       endTime (blocks ?r ! j) + ?buf \<le> startTime (blocks ?r ! k)"
      unfolding b by (rule sep)
  qed
qed

theorem C5_buffer_respected_witness:
  "wellFormed twoFloating buffer10 \<and>
   (\<exists>r. rescheduleDay twoFloating buffer10 = Some r \<and>
      map blockTimes (blocks r) = [(''A'', False, 360, 420), (''B'', False, 430, 460)] \<and>
      endTime (blocks r ! 0) + bufferMinutes buffer10 \<le> startTime (blocks r ! 1))"
proof -
  have wf: "wellFormed twoFloating buffer10" by code_simp
  have "map_option (\<lambda>r. map blockTimes (blocks r)) (rescheduleDay twoFloating buffer10)
    = Some [(''A'', False, 360, 420), (''B'', False, 430, 460)]"
    by code_simp
  then obtain r where r: "rescheduleDay twoFloating buffer10 = Some r"
    "map blockTimes (blocks r) = [(''A'', False, 360, 420), (''B'', False, 430, 460)]"
    by (rule run_value)
  have pass: "fixedPass buffer10 (fixedTasks twoFloating) = Some ([], [])" by code_simp
  have gaps: "initialGaps [] 360 1380 = [\<lparr>gap_start = 360, gap_end = 1380, duration = 1020\<rparr>]"
    by code_simp
  from r(2) have len: "length (blocks r) = 2"
    by (metis length_map length_Cons list.size(3) numeral_2_eq_2)
  note t0 = blockTimes_nth [OF r(2), of 0] and t1 = blockTimes_nth [OF r(2), of 1]
  from C5_buffer_respected [OF wf] r(1) pass gaps
  have "\<forall>j k. j < k \<and> k < length (blocks r) \<and>
         \<not> isLocked (blocks r ! j) \<and> \<not> isLocked (blocks r ! k) \<and>
         in_gap \<lparr>gap_start = 360, gap_end = 1380, duration = 1020\<rparr> (blocks r ! j) \<and>
         in_gap \<lparr>gap_start = 360, gap_end = 1380, duration = 1020\<rparr> (blocks r ! k) \<longrightarrow>
       endTime (blocks r ! j) + bufferMinutes buffer10 \<le> startTime (blocks r ! k)"
    by simp
  then have "0 < (1::nat) \<and> 1 < length (blocks r) \<and>
         \<not> isLocked (blocks r ! 0) \<and> \<not> isLocked (blocks r ! 1) \<and>
         in_gap \<lparr>gap_start = 360, gap_end = 1380, duration = 1020\<rparr> (blocks r ! 0) \<and>
         in_gap \<lparr>gap_start = 360, gap_end = 1380, duration = 1020\<rparr> (blocks r ! 1) \<longrightarrow>
       endTime (blocks r ! 0) + bufferMinutes buffer10 \<le> startTime (blocks r ! 1)"
    by (rule allE [of _ 0], elim allE [of _ 1])
  moreover have "0 < (1::nat) \<and> 1 < length (blocks r) \<and>
         \<not> isLocked (blocks r ! 0) \<and> \<not> isLocked (blocks r ! 1) \<and>
         in_gap \<lparr>gap_start = 360, gap_end = 1380, duration = 1020\<rparr> (blocks r ! 0) \<and>
         in_gap \<lparr>gap_start = 360, gap_end = 1380, duration = 1020\<rparr> (blocks r ! 1)"
    using len t0 t1 by (simp add: in_gap_def)
  ultimately have "endTime (blocks r ! 0) + bufferMinutes buffer10 \<le> startTime (blocks r ! 1)"
    by (rule mp)
  with wf r show ?thesis by - (intro conjI exI [of _ r]; assumption)
qed

text \<open>
  Claim C6, amended: on well-formed input every unlocked block starts at 06:00 or
  later, and ends by 23:00 when no locked block starts later than 23:00 plus the
  buffer. Locked blocks carry the fixed times of their tasks, wherever those lie.
\<close>

theorem C6_floating_within_window:
  assumes wf: "wellFormed tasks settings"
  shows "\<exists>r. rescheduleDay tasks settings = Some r \<and>
    (\<forall>b\<in>set (blocks r). \<not> isLocked b \<longrightarrow>
       360 \<le> startTime b \<and>
       ((\<forall>l\<in>set (blocks r). isLocked l \<longrightarrow> startTime l - bufferMinutes settings \<le> 1380) \<longrightarrow>
          endTime b \<le> 1380))"
proof -
  let ?buf = "bufferMinutes settings"
  from wf obtain bs occ where pass: "fixedPass settings (fixedTasks tasks) = Some (bs, occ)"
    and run: "rescheduleDay tasks settings =
       Some \<lparr>blocks = st_blocks (fittingLoop settings
                   \<lparr>queue = floatingTasks tasks, gaps = initialGaps occ 360 1380,
                    st_blocks = bs, rollover = []\<rparr>),
             rolloverTasks = rollover (fittingLoop settings
                   \<lparr>queue = floatingTasks tasks, gaps = initialGaps occ 360 1380,
                    st_blocks = bs, rollover = []\<rparr>)\<rparr>"
    by (rule wellFormed_run)
  let ?G = "initialGaps occ 360 1380"
  from wf pass obtain new gs where
    new: "st_blocks (fittingLoop settings \<lparr>queue = floatingTasks tasks, gaps = ?G,
        st_blocks = bs, rollover = []\<rparr>) = bs @ new"
      "\<forall>b\<in>set new. \<not> isLocked b"
      "\<forall>b\<in>set new. blockInv ?buf ?G gs b"
      "sorted_wrt (separated ?buf ?G) new"
    by (rule run_loop)
  note locked = fixed_all_locked [OF wf pass]
  note G = initialGaps_facts(3) [OF wf pass]
  have main: "\<forall>b\<in>set (bs @ new). \<not> isLocked b \<longrightarrow>
       360 \<le> startTime b \<and>
       ((\<forall>l\<in>set (bs @ new). isLocked l \<longrightarrow> startTime l - ?buf \<le> 1380) \<longrightarrow> endTime b \<le> 1380)"
  proof (intro ballI impI conjI)
    fix b assume b: "b \<in> set (bs @ new)" "\<not> isLocked b"
    with locked have "b \<in> set new" by auto
    with new(3) have "blockInv ?buf ?G gs b" by blast
    then obtain g where g: "g \<in> set ?G" "gap_start g \<le> startTime b" "endTime b \<le> gap_end g"
      by (rule blockInv_gap)
    from G g(1) have lo: "360 \<le> gap_start g"
      and hi: "gap_end g = 1380 \<or> gap_end g \<in> occ_start ` set occ" by auto
    from lo g(2) show "360 \<le> startTime b" by simp
    assume early: "\<forall>l\<in>set (bs @ new). isLocked l \<longrightarrow> startTime l - ?buf \<le> 1380"
    have "gap_end g \<le> 1380"
    proof (cases "gap_end g = 1380")
      case True
      then show ?thesis by simp
    next
      case False
      with hi obtain x where x: "x \<in> set occ" "gap_end g = occ_start x" by auto
      from occupied_facts(3) [OF wf pass x(1)] obtain l where
        l: "l \<in> set bs" "occ_start x = max 0 (startTime l - ?buf)" by blast
      from l(1) locked early have "startTime l - ?buf \<le> 1380" by simp
      with l(2) x(2) show ?thesis by simp
    qed
    with g(3) show "endTime b \<le> 1380" by simp
  qed
  let ?r = "\<lparr>blocks = bs @ new, rolloverTasks = rollover (fittingLoop settings
      \<lparr>queue = floatingTasks tasks, gaps = ?G, st_blocks = bs, rollover = []\<rparr>)\<rparr>"
  from run new(1) have r: "rescheduleDay tasks settings = Some ?r" by (simp only:)
  have b: "blocks ?r = bs @ new" by simp
  show ?thesis
  proof (intro exI [of _ ?r] conjI)
    show "rescheduleDay tasks settings = Some ?r" by (rule r)
    show "\<forall>b\<in>set (blocks ?r). \<not> isLocked b \<longrightarrow>
       360 \<le> startTime b \<and>
       ((\<forall>l\<in>set (blocks ?r). isLocked l \<longrightarrow> startTime l - ?buf \<le> 1380) \<longrightarrow> endTime b \<le> 1380)"
      unfolding b by (rule main)
  qed
qed

theorem C6_floating_within_window_witness:
  "wellFormed meetingAndWork buffer15 \<and>
   (\<exists>r. rescheduleDay meetingAndWork buffer15 = Some r \<and>
      map blockTimes (blocks r) = [(''1'', True, 540, 630), (''A'', False, 360, 480)] \<and>
      360 \<le> startTime (blocks r ! 1) \<and> endTime (blocks r ! 1) \<le> 1380)"
proof -
  have wf: "wellFormed meetingAndWork buffer15" by code_simp
  have "map_option (\<lambda>r. map blockTimes (blocks r)) (rescheduleDay meetingAndWork buffer15)
    = Some [(''1'', True, 540, 630), (''A'', False, 360, 480)]"
    by code_simp
  then obtain r where r: "rescheduleDay meetingAndWork buffer15 = Some r"
    "map blockTimes (blocks r) = [(''1'', True, 540, 630), (''A'', False, 360, 480)]"
    by (rule run_value)
  from r(2) have len: "length (blocks r) = 2"
    by (metis length_map length_Cons list.size(3) numeral_2_eq_2)
  note t1 = blockTimes_nth [OF r(2), of 1]
  have "\<forall>x\<in>set (map blockTimes (blocks r)). fst (snd x) \<longrightarrow> fst (snd (snd x)) - 15 \<le> 1380"
    unfolding r(2) by simp
  then have early: "\<forall>l\<in>set (blocks r). isLocked l \<longrightarrow> startTime l - bufferMinutes buffer15 \<le> 1380"
    by (simp add: blockTimes_def buffer15_def)
  have mem: "blocks r ! 1 \<in> set (blocks r)" using len by simp
  from C6_floating_within_window [OF wf] r(1)
  have all: "\<forall>b\<in>set (blocks r). \<not> isLocked b \<longrightarrow>
       360 \<le> startTime b \<and>
       ((\<forall>l\<in>set (blocks r). isLocked l \<longrightarrow> startTime l - bufferMinutes buffer15 \<le> 1380) \<longrightarrow>
          endTime b \<le> 1380)" by simp
  from t1(2) have unlocked: "\<not> isLocked (blocks r ! 1)" by simp
  from bspec [OF all mem] unlocked early
  have "360 \<le> startTime (blocks r ! 1) \<and> endTime (blocks r ! 1) \<le> 1380"
    by (simp only: simp_thms)
  with wf r show ?thesis by - (intro conjI exI [of _ r]; (assumption | simp))
qed

text \<open>
  Claim C6, as stated, fails: the locked block of an anchor at 05:00 starts before the
  window.
\<close>

theorem C6_counterexample:
  "\<exists>r. rescheduleDay earlyAnchor zeroBuffer = Some r \<and>
     map blockTimes (blocks r) = [(''1'', True, 300, 360)] \<and> startTime (blocks r ! 0) < 360"
proof -
  have "map_option (\<lambda>r. map blockTimes (blocks r)) (rescheduleDay earlyAnchor zeroBuffer)
    = Some [(''1'', True, 300, 360)]"
    by code_simp
  then obtain r where r: "rescheduleDay earlyAnchor zeroBuffer = Some r"
    "map blockTimes (blocks r) = [(''1'', True, 300, 360)]"
    by (rule run_value)
  from blockTimes_nth(3) [OF r(2), of 0] have "startTime (blocks r ! 0) < 360" by simp
  with r show ?thesis by (intro exI [of _ r]) simp
qed

text \<open>
  A floating block can also end after 23:00: a gap runs up to the next occupied range,
  and nothing cuts it at the end of the window when that range begins later.
\<close>

lemma floating_block_past_window:
  "\<exists>r. rescheduleDay lateAnchor zeroBuffer = Some r \<and>
     map blockTimes (blocks r) = [(''1'', True, 1410, 1440), (''A'', False, 360, 1410)]"
proof -
  have "map_option (\<lambda>r. map blockTimes (blocks r)) (rescheduleDay lateAnchor zeroBuffer)
    = Some [(''1'', True, 1410, 1440), (''A'', False, 360, 1410)]"
    by code_simp
  then obtain r where "rescheduleDay lateAnchor zeroBuffer = Some r"
    "map blockTimes (blocks r) = [(''1'', True, 1410, 1440), (''A'', False, 360, 1410)]"
    by (rule run_value)
  then show ?thesis by (intro exI [of _ r]) simp
qed

text \<open>
  Claim C7, amended: every Anchor or Interrupt task whose \<^verbatim>\<open>fixedStartTime\<close> is
  present and not empty appears in the blocks as a locked block that starts at that
  time and lasts the task's minutes. No Anchor or Interrupt task is in
  \<^verbatim>\<open>rolloverTasks\<close>. A fixed task without a start time is skipped and is in neither
  output: the locked blocks are, in order, exactly one block for every fixed task
  that has a start time, and every block that is not locked is of type Floating.
\<close>

theorem C7_fixed_tasks_placed:
  assumes "rescheduleDay tasks settings = Some r"
  shows "(\<forall>t\<in>set tasks. \<forall>time.
            (task_type t = ANCHOR \<or> task_type t = INTERRUPT) \<and>
            fixedStartTime t = Some time \<and> time \<noteq> [] \<longrightarrow>
            (\<exists>b\<in>set (blocks r). isLocked b \<and> taskId b = task_id t \<and>
               timeToMinutes time = Some (Num (startTime b)) \<and>
               endTime b = startTime b + durationMinutes t)) \<and>
         (\<forall>t\<in>set (rolloverTasks r). task_type t = FLOATING) \<and>
         list_all2 (\<lambda>b t. b = lockedBlock t (startTime b) \<and>
              (\<exists>time. fixedStartTime t = Some time \<and> timeToMinutes time = Some (Num (startTime b))))
           (filter isLocked (blocks r)) (scheduledFixed tasks) \<and>
         (\<forall>b\<in>set (blocks r). \<not> isLocked b \<longrightarrow> taskType b = FLOATING)"
proof -
  from assms obtain bs occ where pass: "fixedPass settings (fixedTasks tasks) = Some (bs, occ)"
    and r: "blocks r = st_blocks (fittingLoop settings
        \<lparr>queue = floatingTasks tasks, gaps = initialGaps occ 360 1380, st_blocks = bs, rollover = []\<rparr>)"
    "rolloverTasks r = rollover (fittingLoop settings
        \<lparr>queue = floatingTasks tasks, gaps = initialGaps occ 360 1380, st_blocks = bs, rollover = []\<rparr>)"
    by (rule rescheduleDay_Some)
  let ?st = "\<lparr>queue = floatingTasks tasks, gaps = initialGaps occ 360 1380, st_blocks = bs, rollover = []\<rparr>"
  from fittingLoop_blocks [of settings ?st] r(1) have sub: "set bs \<subseteq> set (blocks r)" by auto
  have 1: "\<forall>t\<in>set tasks. \<forall>time.
            (task_type t = ANCHOR \<or> task_type t = INTERRUPT) \<and>
            fixedStartTime t = Some time \<and> time \<noteq> [] \<longrightarrow>
            (\<exists>b\<in>set (blocks r). isLocked b \<and> taskId b = task_id t \<and>
               timeToMinutes time = Some (Num (startTime b)) \<and>
               endTime b = startTime b + durationMinutes t)"
  proof (intro ballI allI impI)
    fix t time
    assume t: "t \<in> set tasks" and f: "(task_type t = ANCHOR \<or> task_type t = INTERRUPT) \<and>
            fixedStartTime t = Some time \<and> time \<noteq> []"
    then have "t \<in> set (fixedTasks tasks)" by (simp add: fixedTasks_def)
    with fixedPass_Some [OF pass] f obtain k where k: "k < length bs"
      "fixedEntry settings t (bs ! k) (occ ! k)" by blast
    from k(2) f have e: "timeToMinutes time = Some (Num (startTime (bs ! k)))"
      "bs ! k = lockedBlock t (startTime (bs ! k))" by (auto simp: fixedEntry_def)
    from e(2) have "isLocked (bs ! k) = isLocked (lockedBlock t (startTime (bs ! k)))"
      "taskId (bs ! k) = taskId (lockedBlock t (startTime (bs ! k)))"
      "endTime (bs ! k) = endTime (lockedBlock t (startTime (bs ! k)))" by simp_all
    then have "isLocked (bs ! k)" "taskId (bs ! k) = task_id t"
      "endTime (bs ! k) = startTime (bs ! k) + durationMinutes t"
      by (simp_all add: lockedBlock_def)
    moreover from k(1) sub have "bs ! k \<in> set (blocks r)" by auto
    ultimately show "\<exists>b\<in>set (blocks r). isLocked b \<and> taskId b = task_id t \<and>
               timeToMinutes time = Some (Num (startTime b)) \<and>
               endTime b = startTime b + durationMinutes t"
      using e(1) by blast
  qed
  have "\<forall>t\<in>set (queue ?st) \<union> set (rollover ?st). task_type t = FLOATING"
    by (simp add: floatingTasks_set)
  from fittingLoop_rollover_type [OF this, of settings] r(2)
  have 2: "\<forall>t\<in>set (rolloverTasks r). task_type t = FLOATING" by simp
  from fittingLoop_blocks [of settings ?st] r(1) obtain new where
    new: "blocks r = bs @ new" "\<forall>b\<in>set new. \<not> isLocked b" by auto
  have locked: "\<forall>b\<in>set bs. isLocked b" using fixedPass_locked(1) [OF pass] by blast
  from new locked have "filter isLocked (blocks r) = bs" by simp
  with fixedPass_exact [OF pass]
  have 3: "list_all2 (\<lambda>b t. b = lockedBlock t (startTime b) \<and>
              (\<exists>time. fixedStartTime t = Some time \<and> timeToMinutes time = Some (Num (startTime b))))
           (filter isLocked (blocks r)) (scheduledFixed tasks)"
    by (simp add: scheduledFixed_def)
  have "\<forall>t\<in>set (queue ?st). task_type t = FLOATING" by (simp add: floatingTasks_set)
  moreover from locked have "\<forall>b\<in>set (st_blocks ?st). \<not> isLocked b \<longrightarrow> taskType b = FLOATING"
    by simp
  ultimately have 4: "\<forall>b\<in>set (blocks r). \<not> isLocked b \<longrightarrow> taskType b = FLOATING"
    unfolding r(1) by (rule fittingLoop_block_type)
  from 1 2 3 4 show ?thesis by (intro conjI)
qed

theorem C7_fixed_tasks_placed_witness:
  "(\<exists>r. rescheduleDay meetingAndWork buffer15 = Some r \<and>
     map blockTimes (blocks r) = [(''1'', True, 540, 630), (''A'', False, 360, 480)] \<and>
     (\<exists>b\<in>set (blocks r). isLocked b \<and> taskId b = ''1'' \<and>
        timeToMinutes ''09:00'' = Some (Num (startTime b)) \<and> endTime b = startTime b + 90)) \<and>
   (\<exists>r. rescheduleDay sharedId zeroBuffer = Some r \<and>
     map blockTimes (blocks r) = [(''1'', True, 600, 630)] \<and>
     list_all2 (\<lambda>b t. b = lockedBlock t (startTime b) \<and>
          (\<exists>time. fixedStartTime t = Some time \<and> timeToMinutes time = Some (Num (startTime b))))
       (filter isLocked (blocks r)) [mkTask ''1'' INTERRUPT 1 30 False (Some ''10:00'')])"
proof -
  let ?t = "mkTask ''1'' ANCHOR 1 90 False (Some ''09:00'')"
  have "map_option (\<lambda>r. map blockTimes (blocks r)) (rescheduleDay meetingAndWork buffer15)
    = Some [(''1'', True, 540, 630), (''A'', False, 360, 480)]"
    by code_simp
  then obtain r where r: "rescheduleDay meetingAndWork buffer15 = Some r"
    "map blockTimes (blocks r) = [(''1'', True, 540, 630), (''A'', False, 360, 480)]"
    by (rule run_value)
  have t: "?t \<in> set meetingAndWork" by (simp add: meetingAndWork_def)
  have f: "(task_type ?t = ANCHOR \<or> task_type ?t = INTERRUPT) \<and>
      fixedStartTime ?t = Some ''09:00'' \<and> ''09:00'' \<noteq> []"
    by (simp add: mkTask_def)
  from C7_fixed_tasks_placed [OF r(1)]
  have "\<forall>t\<in>set meetingAndWork. \<forall>time.
            (task_type t = ANCHOR \<or> task_type t = INTERRUPT) \<and>
            fixedStartTime t = Some time \<and> time \<noteq> [] \<longrightarrow>
            (\<exists>b\<in>set (blocks r). isLocked b \<and> taskId b = task_id t \<and>
               timeToMinutes time = Some (Num (startTime b)) \<and>
               endTime b = startTime b + durationMinutes t)"
    by (rule conjunct1)
  from bspec [OF this t, THEN spec, of "''09:00''"] f
  have "\<exists>b\<in>set (blocks r). isLocked b \<and> taskId b = task_id ?t \<and>
               timeToMinutes ''09:00'' = Some (Num (startTime b)) \<and>
               endTime b = startTime b + durationMinutes ?t"
    by (rule mp)
  then have "\<exists>b\<in>set (blocks r). isLocked b \<and> taskId b = ''1'' \<and>
        timeToMinutes ''09:00'' = Some (Num (startTime b)) \<and> endTime b = startTime b + 90"
    by (simp add: mkTask_def)
  with r have first: "\<exists>r. rescheduleDay meetingAndWork buffer15 = Some r \<and>
     map blockTimes (blocks r) = [(''1'', True, 540, 630), (''A'', False, 360, 480)] \<and>
     (\<exists>b\<in>set (blocks r). isLocked b \<and> taskId b = ''1'' \<and>
        timeToMinutes ''09:00'' = Some (Num (startTime b)) \<and> endTime b = startTime b + 90)"
    by - (intro conjI exI [of _ r]; assumption)
  have "map_option (\<lambda>r. map blockTimes (blocks r)) (rescheduleDay sharedId zeroBuffer)
    = Some [(''1'', True, 600, 630)]"
    by code_simp
  then obtain q where q: "rescheduleDay sharedId zeroBuffer = Some q"
    "map blockTimes (blocks q) = [(''1'', True, 600, 630)]"
    by (rule run_value)
  have s: "scheduledFixed sharedId = [mkTask ''1'' INTERRUPT 1 30 False (Some ''10:00'')]"
    by (simp add: scheduledFixed_def fixedTasks_def sharedId_def mkTask_def)
  from C7_fixed_tasks_placed [OF q(1)]
  have "list_all2 (\<lambda>b t. b = lockedBlock t (startTime b) \<and>
          (\<exists>time. fixedStartTime t = Some time \<and> timeToMinutes time = Some (Num (startTime b))))
       (filter isLocked (blocks q)) (scheduledFixed sharedId)"
    by (elim conjE)
  with s have "list_all2 (\<lambda>b t. b = lockedBlock t (startTime b) \<and>
          (\<exists>time. fixedStartTime t = Some time \<and> timeToMinutes time = Some (Num (startTime b))))
       (filter isLocked (blocks q)) [mkTask ''1'' INTERRUPT 1 30 False (Some ''10:00'')]"
    by (simp only:)
  with q have second: "\<exists>r. rescheduleDay sharedId zeroBuffer = Some r \<and>
     map blockTimes (blocks r) = [(''1'', True, 600, 630)] \<and>
     list_all2 (\<lambda>b t. b = lockedBlock t (startTime b) \<and>
          (\<exists>time. fixedStartTime t = Some time \<and> timeToMinutes time = Some (Num (startTime b))))
       (filter isLocked (blocks r)) [mkTask ''1'' INTERRUPT 1 30 False (Some ''10:00'')]"
    by - (intro conjI exI [of _ q]; assumption)
  from first second show ?thesis by (rule conjI)
qed

text \<open>
  Claim C7, as stated, fails: an anchor without a \<^verbatim>\<open>fixedStartTime\<close> is in neither
  output.
\<close>

theorem C7_counterexample:
  "map task_type unscheduledAnchor = [ANCHOR] \<and>
   rescheduleDay unscheduledAnchor zeroBuffer = Some \<lparr>blocks = [], rolloverTasks = []\<rparr>"
  by code_simp

end
